theory Spec2Isabelle
  imports Complex_Main "HOL-Library.Word"
begin

unbundle bit_operations_syntax

section \<open>Chromosome (Chromosome.h)\<close>

text \<open>
  \<^verbatim>\<open>IntChromosome\<close> is the 64-bit unsigned part type (the fallback \<^verbatim>\<open>popcount\<close> of the
  header shifts by 56 and uses 64-bit masks).  A chromosome carries \<^verbatim>\<open>numParts\<close>,
  \<^verbatim>\<open>unusedBits\<close>, the vector \<^verbatim>\<open>chromosomeParts\<close> and its \<^verbatim>\<open>fitness\<close>.  The fitness is a
  \<^verbatim>\<open>double\<close> in the source; a finite \<^verbatim>\<open>double\<close> is taken as the real number it stands for,
  and the arithmetic the source does on fitness values rounds as the arithmetic of
  \<^verbatim>\<open>double\<close> does (section ``The arithmetic of double'').  A fitness that is NaN or
  infinite is outside the model.
\<close>

type_synonym IntChromosome = "64 word"

record Chromosome =
  numParts :: "16 word"
  unusedBits :: "16 word"
  chromosomeParts :: "IntChromosome list"
  fitness :: real

definition M1 :: IntChromosome where "M1 = 0x5555555555555555"
definition M2 :: IntChromosome where "M2 = 0x3333333333333333"
definition M4 :: IntChromosome where "M4 = 0x0f0f0f0f0f0f0f0f"
definition H01 :: IntChromosome where "H01 = 0x0101010101010101"

text \<open>\<^verbatim>\<open>Chromosome::popcount\<close>, the portable fallback of the header.\<close>

definition popcount :: "IntChromosome \<Rightarrow> 16 word" where
  "popcount x =
     (if x = 0 then 0
      else let x1 = x - (drop_bit 1 x AND M1);
               x2 = (x1 AND M2) + (drop_bit 2 x1 AND M2);
               x3 = (x2 + drop_bit 4 x2) AND M4
           in ucast (drop_bit 56 (x3 * H01)))"

text \<open>
  Modelled from the spec: \<^verbatim>\<open>Chromosome::getVariableCount\<close> is declared in the header and
  its body is not part of the sources; the spec gives it as the popcount across the
  parts.  The result type is \<^verbatim>\<open>uint16_t\<close>.
\<close>

definition getVariableCount :: "Chromosome \<Rightarrow> 16 word" where
  "getVariableCount c = sum_list (map popcount (chromosomeParts c))"

text \<open>
  Modelled from the spec: the copy constructor
  \<^verbatim>\<open>Chromosome(const Chromosome &other, bool copyChromosomeParts = true)\<close> is declared in
  the header only.  A copy has the same fields; without the parts, the part vector has
  the same length and no bit set.
\<close>

definition copyChromosome :: "Chromosome \<Rightarrow> bool \<Rightarrow> Chromosome" where
  "copyChromosome other copyChromosomeParts =
     (if copyChromosomeParts then other
      else other\<lparr>chromosomeParts := map (\<lambda>_. 0) (chromosomeParts other)\<rparr>)"

section \<open>The arithmetic of double\<close>

text \<open>
  The source computes on fitness values in the type \<^verbatim>\<open>double\<close>, the binary64 format of
  IEEE 754.  Its finite values are the reals \<open>\<plusminus> n * 2 ^ e\<close> with \<open>n < 2 ^ 53\<close> and
  \<open>- 1074 \<le> e \<le> 971\<close>; an operation gives the exact result rounded to the nearest of
  them, to the one with the even \<open>n\<close> when two are equally near, and an infinity when
  the rounded magnitude would reach \<open>2 ^ 1024\<close>.
\<close>

datatype double = MinusInfinity | Finite real | PlusInfinity

text \<open>
  \<open>scaleDown\<close> and \<open>scaleUp\<close> bring a positive \<open>a * 2 ^ e\<close> to the form in which \<open>a\<close> lies
  in \<open>[2 ^ 52, 2 ^ 53)\<close>, or \<open>e = - 1074\<close> and \<open>a < 2 ^ 52\<close> (a subnormal number); the
  two constants are \<open>2 ^ 53\<close> and \<open>2 ^ 52\<close>.
\<close>

function scaleDown :: "real \<Rightarrow> int \<Rightarrow> real \<times> int" where
  "scaleDown a e = (if a < 9007199254740992 then (a, e) else scaleDown (a / 2) (e + 1))"
  by pat_completeness auto
termination
proof (relation "measure (\<lambda>(a, e). nat \<lceil>a\<rceil>)", goal_cases)
  case 1
  show ?case by simp
next
  case (2 a e)
  then have a: "9007199254740992 \<le> a" by simp
  then have "a / 2 \<le> a - 1" by simp
  then have "\<lceil>a / 2\<rceil> \<le> \<lceil>a - 1\<rceil>" by (rule ceiling_mono)
  then have "\<lceil>a / 2\<rceil> < \<lceil>a\<rceil>" by simp
  moreover have "0 < \<lceil>a\<rceil>" using a by (simp add: less_ceiling_iff)
  ultimately show ?case by simp
qed

function scaleUp :: "real \<Rightarrow> int \<Rightarrow> real \<times> int" where
  "scaleUp a e =
     (if 4503599627370496 \<le> a \<or> e \<le> - 1074 then (a, e) else scaleUp (2 * a) (e - 1))"
  by pat_completeness auto
termination
  by (relation "measure (\<lambda>(a, e). nat (e + 1074))") auto

text \<open>The nearest integer, the even one of two that are equally near.\<close>

definition roundToEven :: "real \<Rightarrow> int" where
  "roundToEven q =
     (let n = \<lfloor>q\<rfloor>; r = q - of_int n
      in if r < 1 / 2 then n else if 1 / 2 < r then n + 1
         else if even n then n else n + 1)"

definition pow2 :: "int \<Rightarrow> real" where
  "pow2 e = (if 0 \<le> e then 2 ^ nat e else 1 / 2 ^ nat (- e))"

text \<open>The \<^verbatim>\<open>double\<close> that an exact result \<open>x\<close> is rounded to; the constant is \<open>2 ^ 1024\<close>.\<close>

definition roundDouble :: "real \<Rightarrow> double" where
  "roundDouble x =
     (if x = 0 then Finite 0
      else
        (case scaleDown \<bar>x\<bar> 0 of
           (a, e) \<Rightarrow>
             (case scaleUp a e of
                (a', e') \<Rightarrow>
                  (let v = of_int (roundToEven a') * pow2 e'
                   in if 179769313486231590772930519078902473361797697894230657273430081157732675805500963132708477322407536021120113879871393357658789768814416622492847430639474124377767893424865485276302219601246094119453082952085005768838150682342462881473913110540827237163350510684586298239947245938479716304835356329624224137216 \<le> v
                      then (if x < 0 then MinusInfinity else PlusInfinity)
                      else Finite (if x < 0 then - v else v)))))"

text \<open>
  The three operations the mating step uses: the product of two finite numbers, a
  finite number minus a product, and the comparison \<^verbatim>\<open><\<close> of a finite number with the
  difference.
\<close>

definition mulDouble :: "real \<Rightarrow> real \<Rightarrow> double" where
  "mulDouble x y = roundDouble (x * y)"

definition subDouble :: "real \<Rightarrow> double \<Rightarrow> double" where
  "subDouble x d =
     (case d of
        Finite y \<Rightarrow> roundDouble (x - y)
      | PlusInfinity \<Rightarrow> MinusInfinity
      | MinusInfinity \<Rightarrow> PlusInfinity)"

definition lessDouble :: "real \<Rightarrow> double \<Rightarrow> bool" where
  "lessDouble x d =
     (case d of
        Finite y \<Rightarrow> x < y
      | PlusInfinity \<Rightarrow> True
      | MinusInfinity \<Rightarrow> False)"

section \<open>What the mating step calls\<close>

text \<open>
  \<^verbatim>\<open>MultiThreadedPopulation::mate\<close> calls into code that is not part of the sources: the
  random number generator, \<^verbatim>\<open>drawChromosomeFromCurrentGeneration\<close>, \<^verbatim>\<open>Chromosome::mateWith\<close>,
  \<^verbatim>\<open>mutate\<close>, \<^verbatim>\<open>randomlyReset\<close>, \<^verbatim>\<open>Evaluator::evaluate\<close>, \<^verbatim>\<open>Population::checkDuplicated\<close> and
  R's interrupt check.  They are parameters of the model, each a function of a state
  \<open>'w\<close> that stands for everything the calling thread owns besides the generation
  buffers (its RNG, its evaluator, the pending user interrupt).

  \<^item> \<open>drawChromosomeFromCurrentGeneration\<close> returns the slot of the current generation
    whose chromosome object the C++ function points to (the \<^verbatim>\<open>rng(0.0, sum)\<close> argument
    is drawn inside); two results are the same pointer iff they are the same slot.
  \<^item> \<open>mateWith p1 p2 c1 c2\<close> gives the new contents of the two output chromosomes.
  \<^item> \<open>evaluate c\<close> gives the fitness, which \<^verbatim>\<open>Evaluator::evaluate\<close> both stores in the
    chromosome and returns.
\<close>

record 'w env =
  drawChromosomeFromCurrentGeneration :: "'w \<Rightarrow> nat \<times> 'w"
  mateWith :: "Chromosome \<Rightarrow> Chromosome \<Rightarrow> Chromosome \<Rightarrow> Chromosome \<Rightarrow> 'w
                 \<Rightarrow> (Chromosome \<times> Chromosome) \<times> 'w"
  evaluate :: "Chromosome \<Rightarrow> 'w \<Rightarrow> real \<times> 'w"
  mutate :: "Chromosome \<Rightarrow> 'w \<Rightarrow> (bool \<times> Chromosome) \<times> 'w"
  randomlyReset :: "Chromosome \<Rightarrow> 'w \<Rightarrow> Chromosome \<times> 'w"
  checkDuplicated :: "Chromosome list \<Rightarrow> nat \<Rightarrow> nat \<Rightarrow> nat \<Rightarrow> nat \<Rightarrow> bool \<times> bool"
  check_interrupt :: "'w \<Rightarrow> bool \<times> 'w"

text \<open>
  The fields of \<^verbatim>\<open>Control\<close> that the modelled code reads (\<^verbatim>\<open>Control.h\<close> is not part of the
  sources, so the integer fields are kept as natural numbers: every use is a comparison
  or a division after integer promotion).
\<close>

record Control =
  populationSize :: nat
  numThreads :: nat
  numGenerations :: nat
  maxMatingTries :: nat
  maxDuplicateEliminationTries :: nat
  badSolutionThreshold :: real

text \<open>
  Every call that leaves \<^verbatim>\<open>mate\<close> is recorded, in order, so that statements about which
  calls happen (and how often) can be made about the model.
\<close>

datatype call =
    DrawChromosome nat
  | MateWith nat nat
  | Evaluate Chromosome
  | Mutate Chromosome
  | RandomlyReset Chromosome
  | CheckInterrupt

record 'w io =
  world :: 'w
  calls :: "call list"

definition callDraw :: "'w env \<Rightarrow> 'w io \<Rightarrow> nat \<times> 'w io" where
  "callDraw E s =
     (case drawChromosomeFromCurrentGeneration E (world s) of
        (i, w) \<Rightarrow> (i, \<lparr>world = w, calls = calls s @ [DrawChromosome i]\<rparr>))"

definition callMateWith ::
  "'w env \<Rightarrow> Chromosome list \<Rightarrow> nat \<Rightarrow> nat \<Rightarrow> Chromosome \<Rightarrow> Chromosome \<Rightarrow> 'w io
     \<Rightarrow> (Chromosome \<times> Chromosome) \<times> 'w io" where
  "callMateWith E cur i1 i2 c1 c2 s =
     (case mateWith E (cur ! i1) (cur ! i2) c1 c2 (world s) of
        (cs, w) \<Rightarrow> (cs, \<lparr>world = w, calls = calls s @ [MateWith i1 i2]\<rparr>))"

definition callEvaluate :: "'w env \<Rightarrow> Chromosome \<Rightarrow> 'w io \<Rightarrow> Chromosome \<times> 'w io" where
  "callEvaluate E c s =
     (case evaluate E c (world s) of
        (f, w) \<Rightarrow> (c\<lparr>fitness := f\<rparr>, \<lparr>world = w, calls = calls s @ [Evaluate c]\<rparr>))"

definition callMutate :: "'w env \<Rightarrow> Chromosome \<Rightarrow> 'w io \<Rightarrow> (bool \<times> Chromosome) \<times> 'w io" where
  "callMutate E c s =
     (case mutate E c (world s) of
        (r, w) \<Rightarrow> (r, \<lparr>world = w, calls = calls s @ [Mutate c]\<rparr>))"

definition callRandomlyReset :: "'w env \<Rightarrow> Chromosome \<Rightarrow> 'w io \<Rightarrow> Chromosome \<times> 'w io" where
  "callRandomlyReset E c s =
     (case randomlyReset E c (world s) of
        (c', w) \<Rightarrow> (c', \<lparr>world = w, calls = calls s @ [RandomlyReset c]\<rparr>))"

definition callCheckInterrupt :: "'w env \<Rightarrow> 'w io \<Rightarrow> bool \<times> 'w io" where
  "callCheckInterrupt E s =
     (case check_interrupt E (world s) of
        (b, w) \<Rightarrow> (b, \<lparr>world = w, calls = calls s @ [CheckInterrupt]\<rparr>))"

section \<open>The mating step (MultiThreadedPopulation::mate)\<close>

subsection \<open>Drawing the two parents\<close>

text \<open>
  \<^verbatim>\<open>do { tmpChromosome2 = draw } while (tmpChromosome1 == tmpChromosome2)\<close>: a comparison
  of pointers, that is of slots.  The loop has no bound in the source.
\<close>

partial_function (option) drawSecondParent ::
  "'w env \<Rightarrow> nat \<Rightarrow> 'w io \<Rightarrow> (nat \<times> 'w io) option" where
  "drawSecondParent E i1 s =
     (case callDraw E s of
        (i2, s') \<Rightarrow> if i1 = i2 then drawSecondParent E i1 s' else Some (i2, s'))"

definition drawParents :: "'w env \<Rightarrow> 'w io \<Rightarrow> (nat \<times> nat \<times> 'w io) option" where
  "drawParents E s =
     (case callDraw E s of
        (i1, s1) \<Rightarrow>
          (case drawSecondParent E i1 s1 of
             None \<Rightarrow> None
           | Some (i2, s2) \<Rightarrow> Some (i1, i2, s2)))"

subsection \<open>The first two children\<close>

text \<open>
  \<^verbatim>\<open>while (both children have no variables) mateWith(...)\<close>, again without a bound, and
  then the replacement of a single empty child by a copy of the other one.
\<close>

partial_function (option) mateAgainWhileEmpty ::
  "'w env \<Rightarrow> Chromosome list \<Rightarrow> nat \<Rightarrow> nat \<Rightarrow> (Chromosome \<times> Chromosome) \<times> 'w io
     \<Rightarrow> ((Chromosome \<times> Chromosome) \<times> 'w io) option" where
  "mateAgainWhileEmpty E cur i1 i2 cs =
     (case cs of
        ((child1, child2), s) \<Rightarrow>
          if getVariableCount child1 = 0 \<and> getVariableCount child2 = 0
          then mateAgainWhileEmpty E cur i1 i2 (callMateWith E cur i1 i2 child1 child2 s)
          else Some cs)"

definition replaceEmptyChild :: "Chromosome \<times> Chromosome \<Rightarrow> Chromosome \<times> Chromosome" where
  "replaceEmptyChild cs =
     (case cs of
        (child1, child2) \<Rightarrow>
          if getVariableCount child1 = 0 then (copyChromosome child2 True, child2)
          else if getVariableCount child2 = 0 then (child1, copyChromosome child1 True)
          else (child1, child2))"

definition firstChildren ::
  "'w env \<Rightarrow> Chromosome list \<Rightarrow> nat \<Rightarrow> nat \<Rightarrow> Chromosome \<Rightarrow> Chromosome \<Rightarrow> 'w io
     \<Rightarrow> ((Chromosome \<times> Chromosome) \<times> 'w io) option" where
  "firstChildren E cur i1 i2 child1 child2 s =
     (case mateAgainWhileEmpty E cur i1 i2 (callMateWith E cur i1 i2 child1 child2 s) of
        None \<Rightarrow> None
      | Some (cs, s') \<Rightarrow> Some (replaceEmptyChild cs, s'))"

subsection \<open>Evaluation and the improvement retries\<close>

definition minParentFitnessOf :: "Chromosome \<Rightarrow> Chromosome \<Rightarrow> real" where
  "minParentFitnessOf tmpChromosome1 tmpChromosome2 =
     (if fitness tmpChromosome1 > fitness tmpChromosome2
      then fitness tmpChromosome1 else fitness tmpChromosome2)"

text \<open>Both children are evaluated; they are swapped when the first is the less fit.\<close>

definition evaluateChildren ::
  "'w env \<Rightarrow> (Chromosome \<times> Chromosome) \<times> 'w io \<Rightarrow> (Chromosome \<times> Chromosome) \<times> 'w io" where
  "evaluateChildren E cs =
     (case cs of
        ((child1, child2), s) \<Rightarrow>
          (case callEvaluate E child1 s of
             (c1, s1) \<Rightarrow>
               (case callEvaluate E child2 s1 of
                  (c2, s2) \<Rightarrow>
                    (if fitness c1 < fitness c2 then (c2, c1) else (c1, c2), s2))))"

text \<open>
  One proposal of a retry: skipped when it has no variable, else evaluated and, when
  better than the second child, stored as the new second child, or as the new first
  child (the old first child then becomes the second).  The result is the proposal
  (now carrying its fitness) and the two children.
\<close>

definition considerProposal ::
  "'w env \<Rightarrow> Chromosome \<Rightarrow> (Chromosome \<times> Chromosome) \<times> 'w io
     \<Rightarrow> Chromosome \<times> (Chromosome \<times> Chromosome) \<times> 'w io" where
  "considerProposal E proposalChild cs =
     (case cs of
        ((child1, child2), s) \<Rightarrow>
          if getVariableCount proposalChild > 0 then
            (case callEvaluate E proposalChild s of
               (p, s') \<Rightarrow>
                 if fitness p > fitness child2 then
                   (if fitness p > fitness child1
                    then (p, (copyChromosome p True, child1), s')
                    else (p, (child1, copyChromosome p True), s'))
                 else (p, (child1, child2), s'))
          else (proposalChild, (child1, child2), s))"

definition retryMating ::
  "'w env \<Rightarrow> Chromosome list \<Rightarrow> nat \<Rightarrow> nat \<Rightarrow> Chromosome \<times> Chromosome
     \<Rightarrow> (Chromosome \<times> Chromosome) \<times> 'w io
     \<Rightarrow> (Chromosome \<times> Chromosome) \<times> (Chromosome \<times> Chromosome) \<times> 'w io" where
  "retryMating E cur i1 i2 proposals cs =
     (case callMateWith E cur i1 i2 (fst proposals) (snd proposals) (snd cs) of
        ((q1, q2), s1) \<Rightarrow>
          (case considerProposal E q1 (fst cs, s1) of
             (q1', cs1) \<Rightarrow>
               (case considerProposal E q2 cs1 of
                  (q2', cs2) \<Rightarrow> ((q1', q2'), cs2))))"

text \<open>
  \<^verbatim>\<open>while (child1.fitness < minParentFitness && ++matingTries < maxMatingTries)\<close>, with
  the 8-bit counter \<^verbatim>\<open>matingTries\<close> set to 0 before the loop.
\<close>

partial_function (option) improveChildren ::
  "'w env \<Rightarrow> Control \<Rightarrow> Chromosome list \<Rightarrow> nat \<Rightarrow> nat \<Rightarrow> real \<Rightarrow> 8 word
     \<Rightarrow> Chromosome \<times> Chromosome \<Rightarrow> (Chromosome \<times> Chromosome) \<times> 'w io
     \<Rightarrow> ((Chromosome \<times> Chromosome) \<times> (Chromosome \<times> Chromosome) \<times> 'w io) option" where
  "improveChildren E ctrl cur i1 i2 minParentFitness matingTries proposals cs =
     (if fitness (fst (fst cs)) < minParentFitness
         \<and> unat (matingTries + 1) < maxMatingTries ctrl
      then (case retryMating E cur i1 i2 proposals cs of
              (proposals', cs') \<Rightarrow>
                improveChildren E ctrl cur i1 i2 minParentFitness (matingTries + 1)
                  proposals' cs')
      else Some (proposals, cs))"

subsection \<open>One pair of slots\<close>

text \<open>
  The loop state of \<^verbatim>\<open>mate\<close>.  \<open>child1It\<close> is the index of \<^verbatim>\<open>*child1It\<close>; \<open>child2It\<close> is the
  index of \<^verbatim>\<open>child2It.base()\<close>, so the reverse iterator points at slot \<open>child2It - 1\<close> and
  \<^verbatim>\<open>++child2It\<close> lowers the index.  While a pair is worked on, the two children are
  held as values and written to their slots when the iteration ends; the source
  requires the range to lie inside \<^verbatim>\<open>nextGeneration\<close>.
\<close>

record 'w mate_state =
  nextGeneration :: "Chromosome list"
  child1It :: nat
  child2It :: nat
  child1Tries :: "8 word"
  child2Tries :: "8 word"
  proposalChild1 :: Chromosome
  proposalChild2 :: Chromosome
  thread :: "'w io"

definition storeChildren ::
  "Chromosome \<times> Chromosome \<Rightarrow> 'w mate_state \<Rightarrow> 'w mate_state" where
  "storeChildren cs st =
     st\<lparr>nextGeneration :=
          (nextGeneration st)[child1It st := fst cs, child2It st - 1 := snd cs]\<rparr>"

text \<open>
  Steps 1 to 5 of an iteration: the parents, the first children, their evaluation and
  the improvement retries.  The result is \<^verbatim>\<open>minParentFitness\<close>, the two children and the
  state with the proposals and the thread's state updated.
\<close>

definition breed ::
  "'w env \<Rightarrow> Control \<Rightarrow> Chromosome list \<Rightarrow> 'w mate_state
     \<Rightarrow> (real \<times> (Chromosome \<times> Chromosome) \<times> 'w mate_state) option" where
  "breed E ctrl cur st =
     (case drawParents E (thread st) of
        None \<Rightarrow> None
      | Some (i1, i2, s) \<Rightarrow>
          (case firstChildren E cur i1 i2
                  (nextGeneration st ! child1It st)
                  (nextGeneration st ! (child2It st - 1)) s of
             None \<Rightarrow> None
           | Some cs \<Rightarrow>
               (case improveChildren E ctrl cur i1 i2
                       (minParentFitnessOf (cur ! i1) (cur ! i2)) 0
                       (proposalChild1 st, proposalChild2 st)
                       (evaluateChildren E cs) of
                  None \<Rightarrow> None
                | Some ((q1, q2), children, s') \<Rightarrow>
                    Some (minParentFitnessOf (cur ! i1) (cur ! i2), children,
                          st\<lparr>proposalChild1 := q1, proposalChild2 := q2,
                             thread := s'\<rparr>))))"

text \<open>
  The test before the \<^verbatim>\<open>continue\<close>:
  \<^verbatim>\<open>child1.fitness < minParentFitness - badSolutionThreshold * fabs(minParentFitness)\<close>,
  an expression of type \<^verbatim>\<open>double\<close>: the product is rounded, then the difference.
\<close>

definition badSolution :: "Control \<Rightarrow> real \<Rightarrow> real \<Rightarrow> bool" where
  "badSolution ctrl minParentFitness f =
     lessDouble f
       (subDouble minParentFitness
          (mulDouble (badSolutionThreshold ctrl) \<bar>minParentFitness\<bar>))"

text \<open>
  The duplicate handling of one child: \<open>dup\<close> is its flag from \<^verbatim>\<open>checkDuplicated\<close>,
  \<open>tries\<close> its 8-bit counter.  The result says whether the slot index advances.
\<close>

definition settleChild ::
  "'w env \<Rightarrow> Control \<Rightarrow> bool \<Rightarrow> 8 word \<Rightarrow> bool \<Rightarrow> Chromosome \<Rightarrow> 'w io
     \<Rightarrow> bool \<times> 8 word \<times> Chromosome \<times> 'w io" where
  "settleChild E ctrl dup tries mutated child s =
     (let tries' = (if dup then tries + 1 else tries) in
      if \<not> dup \<or> unat tries' > maxDuplicateEliminationTries ctrl then
        (case (if unat tries' > maxDuplicateEliminationTries ctrl
               then (case callRandomlyReset E child s of (c, s1) \<Rightarrow> (True, c, s1))
               else (mutated, child, s)) of
           (mutated', c, s1) \<Rightarrow>
             (case (if mutated' then callEvaluate E c s1 else (c, s1)) of
                (c', s2) \<Rightarrow> (True, 0, c', s2)))
      else (False, tries', child, s))"

datatype 's result = Returned 's | InterruptException 's

text \<open>
  What follows the retries: the \<^verbatim>\<open>continue\<close> for a bad solution, else mutation, the
  duplicate check, the two slot advances and the interrupt check.
\<close>

definition finishPair ::
  "'w env \<Rightarrow> Control \<Rightarrow> nat \<Rightarrow> nat \<Rightarrow> bool \<Rightarrow> real \<Rightarrow> Chromosome \<times> Chromosome
     \<Rightarrow> 'w mate_state \<Rightarrow> 'w mate_state result" where
  "finishPair E ctrl rangeBeginIt rangeEndIt checkUserInterrupt minParentFitness children st =
     (if badSolution ctrl minParentFitness (fitness (fst children))
      then Returned (storeChildren children st)
      else
        (case callMutate E (fst children) (thread st) of
           ((child1Mutated, m1), s1) \<Rightarrow>
        (case callMutate E (snd children) s1 of
           ((child2Mutated, m2), s2) \<Rightarrow>
        (case checkDuplicated E (nextGeneration (storeChildren (m1, m2) st))
                rangeBeginIt rangeEndIt (child1It st) (child2It st) of
           (dup1, dup2) \<Rightarrow>
        (case settleChild E ctrl dup1 (child1Tries st) child1Mutated m1 s2 of
           (adv1, tries1, c1, s3) \<Rightarrow>
        (case settleChild E ctrl dup2 (child2Tries st) child2Mutated m2 s3 of
           (adv2, tries2, c2, s4) \<Rightarrow>
        (let st' = (storeChildren (c1, c2) st)
                     \<lparr>child1It := (if adv1 then child1It st + 1 else child1It st),
                      child2It := (if adv2 then child2It st - 1 else child2It st),
                      child1Tries := tries1, child2Tries := tries2, thread := s4\<rparr>
         in if checkUserInterrupt then
              (case callCheckInterrupt E s4 of
                 (interrupted, s5) \<Rightarrow>
                   if interrupted then InterruptException (st'\<lparr>thread := s5\<rparr>)
                   else Returned (st'\<lparr>thread := s5\<rparr>))
            else Returned st')))))))"

definition matePair ::
  "'w env \<Rightarrow> Control \<Rightarrow> Chromosome list \<Rightarrow> nat \<Rightarrow> nat \<Rightarrow> bool \<Rightarrow> 'w mate_state
     \<Rightarrow> 'w mate_state result option" where
  "matePair E ctrl cur rangeBeginIt rangeEndIt checkUserInterrupt st =
     (case breed E ctrl cur st of
        None \<Rightarrow> None
      | Some (minParentFitness, children, st') \<Rightarrow>
          Some (finishPair E ctrl rangeBeginIt rangeEndIt checkUserInterrupt
                  minParentFitness children st'))"

subsection \<open>The loop over the range\<close>

text \<open>
  \<^verbatim>\<open>while (child1It != child2It.base() && child1It != (child2It + 1).base())\<close>.
  A thrown \<^verbatim>\<open>InterruptException\<close> leaves the loop.
\<close>

partial_function (option) mateLoop ::
  "'w env \<Rightarrow> Control \<Rightarrow> Chromosome list \<Rightarrow> nat \<Rightarrow> nat \<Rightarrow> bool \<Rightarrow> 'w mate_state
     \<Rightarrow> 'w mate_state result option" where
  "mateLoop E ctrl cur rangeBeginIt rangeEndIt checkUserInterrupt st =
     (if child1It st \<noteq> child2It st \<and> child1It st \<noteq> child2It st - 1 then
        (case matePair E ctrl cur rangeBeginIt rangeEndIt checkUserInterrupt st of
           None \<Rightarrow> None
         | Some (InterruptException st') \<Rightarrow> Some (InterruptException st')
         | Some (Returned st') \<Rightarrow>
             mateLoop E ctrl cur rangeBeginIt rangeEndIt checkUserInterrupt st')
      else Some (Returned st))"

text \<open>
  \<^verbatim>\<open>mate(numChildren, evaluator, rng, shuffledSet, offset, checkUserInterrupt)\<close> on the
  current generation \<open>cur\<close> and the buffer \<open>next\<close>; \<open>s\<close> is the calling thread's state.
\<close>

definition mate ::
  "'w env \<Rightarrow> Control \<Rightarrow> Chromosome list \<Rightarrow> Chromosome list \<Rightarrow> 16 word \<Rightarrow> 16 word \<Rightarrow> bool
     \<Rightarrow> 'w io \<Rightarrow> 'w mate_state result option" where
  "mate E ctrl cur next numChildren offset checkUserInterrupt s =
     mateLoop E ctrl cur (unat offset) (unat offset + unat numChildren) checkUserInterrupt
       \<lparr>nextGeneration = next,
        child1It = unat offset,
        child2It = unat offset + unat numChildren,
        child1Tries = 0, child2Tries = 0,
        proposalChild1 = copyChromosome (next ! unat offset) False,
        proposalChild2 = copyChromosome (next ! unat offset) False,
        thread = s\<rparr>"

text \<open>
  The two calls of \<^verbatim>\<open>mate\<close> in the source: the worker threads' \<^verbatim>\<open>runMating\<close> passes
  \<^verbatim>\<open>false\<close> for \<^verbatim>\<open>checkUserInterrupt\<close>, the invoking thread's \<^verbatim>\<open>run\<close> passes \<^verbatim>\<open>true\<close>.
\<close>

definition runMating_mate ::
  "'w env \<Rightarrow> Control \<Rightarrow> Chromosome list \<Rightarrow> Chromosome list \<Rightarrow> 16 word \<Rightarrow> 16 word
     \<Rightarrow> 'w io \<Rightarrow> 'w mate_state result option" where
  "runMating_mate E ctrl cur next numMatingCouples offset s =
     mate E ctrl cur next numMatingCouples offset False s"

definition run_mate ::
  "'w env \<Rightarrow> Control \<Rightarrow> Chromosome list \<Rightarrow> Chromosome list \<Rightarrow> 16 word \<Rightarrow> 16 word
     \<Rightarrow> 'w io \<Rightarrow> 'w mate_state result option" where
  "run_mate E ctrl cur next numChildrenMainThread offset s =
     mate E ctrl cur next numChildrenMainThread offset True s"

subsection \<open>Notions used to state properties of the mating step\<close>

fun resultState :: "'s result \<Rightarrow> 's" where
  "resultState (Returned s) = s"
| "resultState (InterruptException s) = s"

definition interruptChecks :: "'w io \<Rightarrow> nat" where
  "interruptChecks s = count_list (calls s) CheckInterrupt"

definition noCheckBetween :: "'w io \<Rightarrow> 'w io \<Rightarrow> bool" where
  "noCheckBetween s s' = (\<exists>es. calls s' = calls s @ es \<and> CheckInterrupt \<notin> set es)"

declare drawSecondParent.simps [code]
declare mateAgainWhileEmpty.simps [code]
declare improveChildren.simps [code]
declare mateLoop.simps [code]


text \<open>
  One more mating of the same two parents into the two children, as the body of the
  loop \<^verbatim>\<open>while (both children have no variables)\<close> does it.
\<close>

definition mateAgain ::
  "'w env \<Rightarrow> Chromosome list \<Rightarrow> nat \<Rightarrow> nat \<Rightarrow> (Chromosome \<times> Chromosome) \<times> 'w io
     \<Rightarrow> (Chromosome \<times> Chromosome) \<times> 'w io" where
  "mateAgain E cur i1 i2 cs =
     (case cs of ((child1, child2), s) \<Rightarrow> callMateWith E cur i1 i2 child1 child2 s)"

definition bothEmpty :: "Chromosome \<times> Chromosome \<Rightarrow> bool" where
  "bothEmpty cs = (getVariableCount (fst cs) = 0 \<and> getVariableCount (snd cs) = 0)"
section \<open>The invoking thread (MultiThreadedPopulation::run)\<close>

subsection \<open>The shared synchronisation members\<close>

text \<open>
  The members of the population object that the threads share under \<^verbatim>\<open>syncMutex\<close>, with
  the values the constructor gives them.  The two counters are declared in
  \<^verbatim>\<open>MultiThreadedPopulation.h\<close>, which is not part of the sources; they count threads and
  are kept as natural numbers.
\<close>

record sync =
  startMating :: bool
  allThreadsFinishedMating :: bool
  killThreads :: bool
  actuallySpawnedThreads :: nat
  numThreadsFinishedMating :: nat

definition constructed :: sync where
  "constructed =
     \<lparr>startMating = False, allThreadsFinishedMating = False, killThreads = False,
      actuallySpawnedThreads = 0, numThreadsFinishedMating = 0\<rparr>"

subsection \<open>Spawning the worker threads\<close>

text \<open>
  The two fields of \<^verbatim>\<open>ThreadArgsWrapper\<close> that say which slots a worker mates (the other
  fields hand it its seed, its evaluator and the chromosome size).
\<close>

record ThreadArgsWrapper =
  numChildren :: "16 word"
  offset :: "16 word"

text \<open>
  The locals of \<^verbatim>\<open>run\<close> that the spawning loop changes, together with the shared
  members; \<open>mainOffset\<close> is the local \<^verbatim>\<open>offset\<close>, and \<open>threadArgs\<close> is the array of that
  name, indexed by the thread number.
\<close>

record spawning = sync +
  remainingChildren :: int
  numChildrenMainThread :: "16 word"
  mainOffset :: "16 word"
  threadArgs :: "nat \<Rightarrow> ThreadArgsWrapper"

text \<open>
  The body of \<^verbatim>\<open>for (i = maxThreadsToSpawn - 1; i >= 0; --i)\<close> for thread \<open>i\<close>.
  \<open>pthread_create i\<close> says whether the call for thread \<open>i\<close> returned 0.
\<close>

definition spawnThread :: "(nat \<Rightarrow> bool) \<Rightarrow> 16 word \<Rightarrow> nat \<Rightarrow> spawning \<Rightarrow> spawning" where
  "spawnThread pthread_create numChildrenPerThread i st =
     (let n = (if remainingChildren st > 0 then numChildrenPerThread + 1
               else numChildrenPerThread);
          st1 = st\<lparr>remainingChildren :=
                     (if remainingChildren st > 0 then remainingChildren st - 1
                      else remainingChildren st),
                   threadArgs :=
                     (threadArgs st)(i := \<lparr>numChildren = n, offset = mainOffset st\<rparr>)\<rparr>
      in if pthread_create i
         then st1\<lparr>actuallySpawnedThreads := actuallySpawnedThreads st1 + 1,
                  mainOffset := mainOffset st1 + n\<rparr>
         else st1\<lparr>numChildrenMainThread := numChildrenMainThread st1 + n\<rparr>)"

fun spawnThreads :: "(nat \<Rightarrow> bool) \<Rightarrow> 16 word \<Rightarrow> nat \<Rightarrow> spawning \<Rightarrow> spawning" where
  "spawnThreads pthread_create numChildrenPerThread 0 st = st"
| "spawnThreads pthread_create numChildrenPerThread (Suc i) st =
     spawnThreads pthread_create numChildrenPerThread i
       (spawnThread pthread_create numChildrenPerThread i st)"

definition maxThreadsToSpawn :: "Control \<Rightarrow> 16 word" where
  "maxThreadsToSpawn ctrl = of_nat (numThreads ctrl - 1)"

definition numChildrenPerThread :: "Control \<Rightarrow> 16 word" where
  "numChildrenPerThread ctrl = of_nat (populationSize ctrl div numThreads ctrl)"

definition createThreads :: "Control \<Rightarrow> (nat \<Rightarrow> bool) \<Rightarrow> sync \<Rightarrow> spawning" where
  "createThreads ctrl pthread_create shared =
     spawnThreads pthread_create (numChildrenPerThread ctrl) (unat (maxThreadsToSpawn ctrl))
       (sync.extend shared
          \<lparr>remainingChildren = int (populationSize ctrl mod numThreads ctrl),
           numChildrenMainThread = numChildrenPerThread ctrl,
           mainOffset = 0,
           threadArgs = (\<lambda>_. \<lparr>numChildren = 0, offset = 0\<rparr>)\<rparr>)"

text \<open>The test before the warning \<^verbatim>\<open>Only ... threads could be spawned\<close>.\<close>

definition spawnWarning :: "Control \<Rightarrow> spawning \<Rightarrow> bool" where
  "spawnWarning ctrl st = (actuallySpawnedThreads st < unat (maxThreadsToSpawn ctrl))"

text \<open>The slots a spawned worker mates, and the slots the invoking thread mates.\<close>

definition workerRange :: "spawning \<Rightarrow> nat \<Rightarrow> nat set" where
  "workerRange st i =
     {unat (offset (threadArgs st i)) ..<
        unat (offset (threadArgs st i)) + unat (numChildren (threadArgs st i))}"

definition mainRange :: "spawning \<Rightarrow> nat set" where
  "mainRange st =
     {unat (mainOffset st) ..< unat (mainOffset st) + unat (numChildrenMainThread st)}"

definition spawnedWorkers :: "Control \<Rightarrow> (nat \<Rightarrow> bool) \<Rightarrow> nat set" where
  "spawnedWorkers ctrl pthread_create =
     {i. i < unat (maxThreadsToSpawn ctrl) \<and> pthread_create i}"

text \<open>The threads whose creation failed, from thread \<open>i\<close> on.\<close>

definition unstartedFrom :: "Control \<Rightarrow> (nat \<Rightarrow> bool) \<Rightarrow> nat \<Rightarrow> nat set" where
  "unstartedFrom ctrl pthread_create i =
     {j. i \<le> j \<and> j < numThreads ctrl - 1 \<and> \<not> pthread_create j}"

text \<open>
  What holds before the loop body runs for thread \<open>i - 1\<close> (and after the loop, for
  \<open>i = 0\<close>): the slots not yet handed out are accounted for, and the ranges of the
  workers spawned so far tile the slots below \<open>mainOffset\<close>.
\<close>

definition spawnedFrom :: "Control \<Rightarrow> (nat \<Rightarrow> bool) \<Rightarrow> nat \<Rightarrow> nat set" where
  "spawnedFrom ctrl pthread_create i =
     {j. i \<le> j \<and> j < numThreads ctrl - 1 \<and> pthread_create j}"

definition spawnInv :: "Control \<Rightarrow> (nat \<Rightarrow> bool) \<Rightarrow> nat \<Rightarrow> spawning \<Rightarrow> bool" where
  "spawnInv ctrl pthread_create i st =
     (0 \<le> remainingChildren st \<and> nat (remainingChildren st) \<le> i \<and>
      unat (mainOffset st) + unat (numChildrenMainThread st)
        + i * (populationSize ctrl div numThreads ctrl) + nat (remainingChildren st)
        = populationSize ctrl \<and>
      (\<Union>j \<in> spawnedFrom ctrl pthread_create i. workerRange st j)
        = {0 ..< unat (mainOffset st)} \<and>
      (\<forall>j \<in> spawnedFrom ctrl pthread_create i. \<forall>k \<in> spawnedFrom ctrl pthread_create i.
          j \<noteq> k \<longrightarrow> workerRange st j \<inter> workerRange st k = {}) \<and>
      actuallySpawnedThreads st = card (spawnedFrom ctrl pthread_create i))"

subsection \<open>The course of run\<close>

text \<open>
  What \<^verbatim>\<open>run\<close> calls besides \<^verbatim>\<open>mate\<close> and what is not part of the sources, as parameters:
  \<^item> \<open>newChromosome\<close>: the randomly initialised \<^verbatim>\<open>Chromosome(ctrl, shuffledSet, rng)\<close>;
  \<^item> \<open>firstGeneration\<close>: the current generation after \<^verbatim>\<open>initCurrentGeneration\<close> and
    \<^verbatim>\<open>updateCurrentGeneration(nextGeneration, minFitness, false)\<close>;
  \<^item> \<open>laterGeneration\<close>: the current generation after \<^verbatim>\<open>min_element\<close> and
    \<^verbatim>\<open>updateCurrentGeneration(nextGeneration, minFitness, true)\<close>;
  \<^item> \<open>workersMated\<close>: \<^verbatim>\<open>nextGeneration\<close> once every worker has finished the generation
    (the workers write their own ranges of it while the invoking thread mates);
  \<^item> \<open>pthread_attr_init\<close>, \<open>pthread_attr_setdetachstate\<close>, \<open>pthread_create\<close>: whether
    the call returned 0;
  \<^item> \<open>barrierReturns i\<close>: whether the invoking thread's call of
    \<^verbatim>\<open>waitForAllThreadsToFinishMating\<close> in the iteration with loop counter \<open>i\<close> returns.  The
    call waits on \<^verbatim>\<open>allThreadsFinishedMatingCond\<close> until it finds the flag set; whether
    that ever happens depends on the worker threads and on the order in which the
    threads run (section ``The generation barrier'');
  \<^item> \<open>pthread_join i\<close>: whether \<^verbatim>\<open>pthread_join(threads[i], NULL)\<close> returns, with 0 or with
    an error code.  \<^verbatim>\<open>threads\<close> is allocated by \<^verbatim>\<open>new pthread_t[maxThreadsToSpawn]\<close> and
    \<^verbatim>\<open>threads[i]\<close> is written by a successful \<^verbatim>\<open>pthread_create\<close> only; the loop of the joins
    passes every \<^verbatim>\<open>threads[i]\<close>, also after a failed creation.
\<close>

record 'w population =
  newChromosome :: "'w \<Rightarrow> Chromosome \<times> 'w"
  firstGeneration :: "Chromosome list \<Rightarrow> real \<Rightarrow> 'w \<Rightarrow> Chromosome list \<times> 'w"
  laterGeneration :: "Chromosome list \<Rightarrow> Chromosome list"
  workersMated :: "Chromosome list \<Rightarrow> Chromosome list"
  pthread_attr_init :: bool
  pthread_attr_setdetachstate :: bool
  pthread_create :: "nat \<Rightarrow> bool"
  barrierReturns :: "nat \<Rightarrow> bool"
  pthread_join :: "nat \<Rightarrow> bool"

text \<open>
  What the invoking thread does to the worker threads and to the generation, in order
  (the two broadcasts stand for the critical sections that set the flags and signal
  \<^verbatim>\<open>startMatingCond\<close>; \<open>CatchInterrupt\<close> is the handler that sets \<^verbatim>\<open>interrupted\<close>;
  \<open>WaitForAllThreads\<close> and \<open>Join i\<close> record that the call is made).  \<^verbatim>\<open>run\<close> ends by
  returning or by throwing, or it does not end because a call blocks for ever.
\<close>

datatype step =
    CreateThread nat
  | CreateFailed nat
  | Warning
  | BroadcastStart
  | MateOwnShare
  | CatchInterrupt
  | WaitForAllThreads
  | UpdateGeneration
  | BroadcastKill
  | Join nat

datatype thrown = Interrupted | ThreadingError

datatype ending = Returns | Throws thrown | Blocks

text \<open>
  The initial population: \<^verbatim>\<open>while (nextGeneration.size() < populationSize)\<close>, with an
  interrupt check after every candidate.  Modelled from the spec: the comparison
  \<^verbatim>\<open>CompChromsomePtr\<close> of \<^verbatim>\<open>find_if\<close> is not part of the sources; two chromosomes are equal
  iff all their parts are.  The elite is not modelled.
\<close>

partial_function (option) seedPopulation ::
  "'w env \<Rightarrow> 'w population \<Rightarrow> Control \<Rightarrow> Chromosome list \<Rightarrow> real \<Rightarrow> 'w io
     \<Rightarrow> (Chromosome list \<times> real \<times> 'w io) result option" where
  "seedPopulation E P ctrl next minFitness s =
     (if length next < populationSize ctrl then
        (case newChromosome P (world s) of
           (tmpChromosome, w) \<Rightarrow>
             (case (if find (\<lambda>c. chromosomeParts c = chromosomeParts tmpChromosome) next = None
                    then (case callEvaluate E tmpChromosome (s\<lparr>world := w\<rparr>) of
                            (c, s1) \<Rightarrow>
                              (next @ [c],
                               (if fitness c < minFitness then fitness c else minFitness),
                               s1))
                    else (next, minFitness, s\<lparr>world := w\<rparr>)) of
                (next', minFitness', s2) \<Rightarrow>
                  (case callCheckInterrupt E s2 of
                     (interrupt, s3) \<Rightarrow>
                       if interrupt then Some (InterruptException (next', minFitness', s3))
                       else seedPopulation E P ctrl next' minFitness' s3)))
      else Some (Returned (next, minFitness, s)))"

declare seedPopulation.simps [code]

text \<open>The steps of the spawning loop, thread \<open>maxThreadsToSpawn - 1\<close> first.\<close>

definition spawnSteps :: "Control \<Rightarrow> (nat \<Rightarrow> bool) \<Rightarrow> step list" where
  "spawnSteps ctrl created =
     map (\<lambda>i. if created i then CreateThread i else CreateFailed i)
       (rev [0 ..< unat (maxThreadsToSpawn ctrl)])"

text \<open>
  The locals of \<^verbatim>\<open>run\<close> in the loop over the generations, and that loop:
  \<^verbatim>\<open>for (i = numGenerations; i > 0 && !interrupted; --i)\<close>.  \<open>blocked\<close> is not in the source:
  it says that the call of \<^verbatim>\<open>waitForAllThreadsToFinishMating\<close> has not returned, after which
  the invoking thread does nothing more.
\<close>

record 'w evolving =
  currentGeneration :: "Chromosome list"
  nextGenerationBuffer :: "Chromosome list"
  interrupted :: bool
  blocked :: bool
  steps :: "step list"
  mainThread :: "'w io"

fun generations ::
  "'w env \<Rightarrow> 'w population \<Rightarrow> Control \<Rightarrow> 16 word \<Rightarrow> 16 word \<Rightarrow> nat \<Rightarrow> 'w evolving
     \<Rightarrow> 'w evolving option" where
  "generations E P ctrl share off 0 st = Some st"
| "generations E P ctrl share off (Suc i) st =
     (if interrupted st then Some st
      else
        (case run_mate E ctrl (currentGeneration st) (nextGenerationBuffer st) share off
                (mainThread st) of
           None \<Rightarrow> None
         | Some r \<Rightarrow>
             (let mated = st\<lparr>interrupted :=
                               (case r of InterruptException _ \<Rightarrow> True | Returned _ \<Rightarrow> False),
                             steps := steps st @ [BroadcastStart, MateOwnShare]
                               @ (case r of InterruptException _ \<Rightarrow> [CatchInterrupt]
                                  | Returned _ \<Rightarrow> [])
                               @ [WaitForAllThreads],
                             mainThread := thread (resultState r)\<rparr>
              in if barrierReturns P (Suc i) then
                   generations E P ctrl share off i
                     (mated\<lparr>currentGeneration :=
                               laterGeneration P (workersMated P (nextGeneration (resultState r))),
                            nextGenerationBuffer :=
                               workersMated P (nextGeneration (resultState r)),
                            steps := steps mated @ [UpdateGeneration]\<rparr>)
                 else Some (mated\<lparr>blocked := True\<rparr>))))"

text \<open>
  \<^verbatim>\<open>for (i = maxThreadsToSpawn - 1; i >= 0; --i) pthread_join(threads[i], NULL)\<close>: the
  calls made, and whether all of them returned.
\<close>

fun joinThreads :: "(nat \<Rightarrow> bool) \<Rightarrow> nat list \<Rightarrow> step list \<times> bool" where
  "joinThreads returns [] = ([], True)"
| "joinThreads returns (i # rest) =
     (if returns i
      then (case joinThreads returns rest of (js, r) \<Rightarrow> (Join i # js, r))
      else ([Join i], False))"

text \<open>
  \<^verbatim>\<open>run\<close>: how it ends and the steps it took; no result when one of the unbounded
  loops of the invoking thread does not end.
\<close>

definition run ::
  "'w env \<Rightarrow> 'w population \<Rightarrow> Control \<Rightarrow> 'w io \<Rightarrow> (ending \<times> step list) option" where
  "run E P ctrl s =
     (case seedPopulation E P ctrl [] 0 s of
        None \<Rightarrow> None
      | Some (InterruptException _) \<Rightarrow> Some (Throws Interrupted, [])
      | Some (Returned (next, minFitness, s1)) \<Rightarrow>
          (case firstGeneration P next minFitness (world s1) of
             (cur, w) \<Rightarrow>
               if \<not> pthread_attr_init P then Some (Throws ThreadingError, [])
               else if \<not> pthread_attr_setdetachstate P then Some (Throws ThreadingError, [])
               else
                 (case generations E P ctrl
                         (numChildrenMainThread
                            (createThreads ctrl (pthread_create P) constructed))
                         (mainOffset (createThreads ctrl (pthread_create P) constructed))
                         (numGenerations ctrl)
                         \<lparr>currentGeneration = cur, nextGenerationBuffer = next,
                          interrupted = False, blocked = False,
                          steps = spawnSteps ctrl (pthread_create P)
                            @ (if spawnWarning ctrl
                                    (createThreads ctrl (pthread_create P) constructed)
                               then [Warning] else []),
                          mainThread = s1\<lparr>world := w\<rparr>\<rparr> of
                    None \<Rightarrow> None
                  | Some st \<Rightarrow>
                      if blocked st then Some (Blocks, steps st)
                      else
                        (case joinThreads (pthread_join P)
                                (rev [0 ..< unat (maxThreadsToSpawn ctrl)]) of
                           (js, joined) \<Rightarrow>
                             Some (if \<not> joined then Blocks
                                   else if interrupted st then Throws Interrupted
                                   else Returns,
                                   steps st @ BroadcastKill # js)))))"

section \<open>The generation barrier\<close>

subsection \<open>The critical sections\<close>

text \<open>
  \<^verbatim>\<open>waitForAllThreadsToFinishMating\<close>, from taking the mutex to the \<^verbatim>\<open>while\<close> loop: the
  counter is incremented; the thread that brings it above \<^verbatim>\<open>actuallySpawnedThreads\<close> sets
  \<^verbatim>\<open>allThreadsFinishedMating\<close>, resets the counter and clears \<^verbatim>\<open>startMating\<close> (the broadcast
  wakes the waiting threads); any other thread clears \<^verbatim>\<open>allThreadsFinishedMating\<close>.
\<close>

definition arrive :: "sync \<Rightarrow> sync" where
  "arrive s =
     (if numThreadsFinishedMating s + 1 > actuallySpawnedThreads s
      then s\<lparr>allThreadsFinishedMating := True, numThreadsFinishedMating := 0,
              startMating := False\<rparr>
      else s\<lparr>numThreadsFinishedMating := numThreadsFinishedMating s + 1,
              allThreadsFinishedMating := False\<rparr>)"

text \<open>
  Where a thread stands.  A worker (\<^verbatim>\<open>runMating\<close>) waits for \<^verbatim>\<open>startMating\<close>, mates, waits
  for \<^verbatim>\<open>allThreadsFinishedMating\<close>, or has left its loop.  The invoking thread (\<^verbatim>\<open>run\<close>) is
  between two generations, mates, waits for \<^verbatim>\<open>allThreadsFinishedMating\<close>, or has sent the
  kill signal and joins.
\<close>

datatype worker_at = WaitingForStart | WorkerMating | WorkerWaitingForAll | WorkerExited

datatype main_at = BetweenGenerations | MainMating | MainWaitingForAll | MainJoining

text \<open>
  The state of all threads.  The workers are numbered \<open>0 ..< actuallySpawnedThreads\<close>.
  \<open>mainBegun\<close>, \<open>mainDone\<close>, \<open>workerBegun\<close> and \<open>workerDone\<close> are not in the source: they
  count the matings each thread has begun and finished, so that "generation \<open>g\<close>" can
  be spoken of.
\<close>

record threads =
  shared :: sync
  mainAt :: main_at
  workerAt :: "nat \<Rightarrow> worker_at"
  mainBegun :: nat
  mainDone :: nat
  workerBegun :: "nat \<Rightarrow> nat"
  workerDone :: "nat \<Rightarrow> nat"

text \<open>
  The moves.  Each is what one thread does while it holds \<^verbatim>\<open>syncMutex\<close> (a thread that
  waits on a condition variable re-checks its flag under the mutex, so it leaves the
  wait only in a state where the flag is set); the mating between two critical
  sections touches none of the shared members.
  \<^item> \<open>StartGeneration\<close>: \<^verbatim>\<open>run\<close> sets \<^verbatim>\<open>startMating\<close> and broadcasts, then mates.
  \<^item> \<open>MainFinishes\<close>, \<open>WorkerFinishes w\<close>: the thread ends its mating (for the invoking
    thread also by an interrupt) and runs \<open>arrive\<close>; it goes on at once when
    \<^verbatim>\<open>allThreadsFinishedMating\<close> is now set, else it waits.
  \<^item> \<open>MainWakes\<close>, \<open>WorkerWakes w\<close>: a waiting thread finds \<^verbatim>\<open>allThreadsFinishedMating\<close> set.
  \<^item> \<open>WorkerStarts w\<close>, \<open>WorkerExits w\<close>: a worker finds \<^verbatim>\<open>startMating\<close> set and, by
    \<^verbatim>\<open>killThreads\<close>, mates or leaves its loop.
  \<^item> \<open>Terminate\<close>: \<^verbatim>\<open>run\<close> sets \<^verbatim>\<open>startMating\<close> and \<^verbatim>\<open>killThreads\<close> and broadcasts.
\<close>

datatype move =
    StartGeneration
  | MainFinishes
  | MainWakes
  | Terminate
  | WorkerStarts nat
  | WorkerFinishes nat
  | WorkerWakes nat
  | WorkerExits nat

fun fire :: "threads \<Rightarrow> move \<Rightarrow> threads option" where
  "fire s StartGeneration =
     (if mainAt s = BetweenGenerations
      then Some (s\<lparr>shared := (shared s)\<lparr>startMating := True\<rparr>,
                   mainAt := MainMating, mainBegun := mainBegun s + 1\<rparr>)
      else None)"
| "fire s MainFinishes =
     (if mainAt s = MainMating
      then Some (s\<lparr>shared := arrive (shared s),
                   mainAt := (if allThreadsFinishedMating (arrive (shared s))
                              then BetweenGenerations else MainWaitingForAll),
                   mainDone := mainDone s + 1\<rparr>)
      else None)"
| "fire s MainWakes =
     (if mainAt s = MainWaitingForAll \<and> allThreadsFinishedMating (shared s)
      then Some (s\<lparr>mainAt := BetweenGenerations\<rparr>)
      else None)"
| "fire s Terminate =
     (if mainAt s = BetweenGenerations
      then Some (s\<lparr>shared := (shared s)\<lparr>startMating := True, killThreads := True\<rparr>,
                   mainAt := MainJoining\<rparr>)
      else None)"
| "fire s (WorkerStarts w) =
     (if w < actuallySpawnedThreads (shared s) \<and> workerAt s w = WaitingForStart
         \<and> startMating (shared s) \<and> \<not> killThreads (shared s)
      then Some (s\<lparr>workerAt := (workerAt s)(w := WorkerMating),
                   workerBegun := (workerBegun s)(w := workerBegun s w + 1)\<rparr>)
      else None)"
| "fire s (WorkerFinishes w) =
     (if w < actuallySpawnedThreads (shared s) \<and> workerAt s w = WorkerMating
      then Some (s\<lparr>shared := arrive (shared s),
                   workerAt := (workerAt s)
                     (w := (if allThreadsFinishedMating (arrive (shared s))
                            then WaitingForStart else WorkerWaitingForAll)),
                   workerDone := (workerDone s)(w := workerDone s w + 1)\<rparr>)
      else None)"
| "fire s (WorkerWakes w) =
     (if w < actuallySpawnedThreads (shared s) \<and> workerAt s w = WorkerWaitingForAll
         \<and> allThreadsFinishedMating (shared s)
      then Some (s\<lparr>workerAt := (workerAt s)(w := WaitingForStart)\<rparr>)
      else None)"
| "fire s (WorkerExits w) =
     (if w < actuallySpawnedThreads (shared s) \<and> workerAt s w = WaitingForStart
         \<and> startMating (shared s) \<and> killThreads (shared s)
      then Some (s\<lparr>workerAt := (workerAt s)(w := WorkerExited)\<rparr>)
      else None)"

text \<open>A schedule is a list of moves; it runs as long as each move is enabled.\<close>

fun runMoves :: "threads \<Rightarrow> move list \<Rightarrow> threads option" where
  "runMoves s [] = Some s"
| "runMoves s (m # ms) = (case fire s m of None \<Rightarrow> None | Some s' \<Rightarrow> runMoves s' ms)"

text \<open>
  The state when the first generation is about to start: \<open>n\<close> workers were spawned and
  wait for \<^verbatim>\<open>startMating\<close>.
\<close>

definition spawned :: "nat \<Rightarrow> threads" where
  "spawned n =
     \<lparr>shared = constructed\<lparr>actuallySpawnedThreads := n\<rparr>,
      mainAt = BetweenGenerations, workerAt = (\<lambda>_. WaitingForStart),
      mainBegun = 0, mainDone = 0, workerBegun = (\<lambda>_. 0), workerDone = (\<lambda>_. 0)\<rparr>"

text \<open>The number of threads that take part in a generation.\<close>

definition participants :: "sync \<Rightarrow> nat" where
  "participants s = actuallySpawnedThreads s + 1"

text \<open>
  The threads that have finished generation \<open>mainBegun s\<close>, and what holds in every
  state a schedule reaches.
\<close>

definition finishedNow :: "threads \<Rightarrow> nat set" where
  "finishedNow s =
     {w. w < actuallySpawnedThreads (shared s) \<and> workerDone s w = mainBegun s}"

definition barrierInv :: "nat \<Rightarrow> threads \<Rightarrow> bool" where
  "barrierInv n s =
     (actuallySpawnedThreads (shared s) = n \<and>
      mainDone s \<le> mainBegun s \<and> mainBegun s \<le> Suc (mainDone s) \<and>
      ((mainAt s = MainMating) = (mainBegun s = Suc (mainDone s))) \<and>
      (\<forall>w < n. workerDone s w \<le> workerBegun s w \<and> workerBegun s w \<le> mainBegun s \<and>
               mainBegun s \<le> Suc (workerDone s w) \<and>
               ((workerAt s w = WorkerMating) = (workerBegun s w = Suc (workerDone s w)))) \<and>
      (\<not> startMating (shared s) \<longrightarrow>
         numThreadsFinishedMating (shared s) = 0 \<and> \<not> killThreads (shared s) \<and>
         mainDone s = mainBegun s \<and> (\<forall>w < n. workerDone s w = mainBegun s) \<and>
         (mainAt s = BetweenGenerations \<or> mainAt s = MainWaitingForAll)) \<and>
      (startMating (shared s) \<and> \<not> killThreads (shared s) \<longrightarrow>
         (mainAt s = MainMating \<or> mainAt s = MainWaitingForAll) \<and>
         0 < mainBegun s \<and>
         numThreadsFinishedMating (shared s)
           = card (finishedNow s) + (if mainDone s = mainBegun s then 1 else 0) \<and>
         numThreadsFinishedMating (shared s) \<le> n \<and>
         (0 < numThreadsFinishedMating (shared s) \<longrightarrow>
            \<not> allThreadsFinishedMating (shared s)) \<and>
         (\<forall>w < n. workerDone s w = mainBegun s \<longrightarrow> workerAt s w = WorkerWaitingForAll)) \<and>
      (killThreads (shared s) \<longrightarrow>
         startMating (shared s) \<and> mainAt s = MainJoining \<and>
         mainDone s = mainBegun s \<and> (\<forall>w < n. workerDone s w = mainBegun s)))"

section \<open>A scripted environment\<close>

text \<open>
  A concrete environment on which the model can be run: every call takes its answer
  from a script (and a fixed default once the script is used up).  A scripted mating
  writes one part into each output chromosome; mutation changes nothing and no child
  is reported as a duplicate.
\<close>

record script =
  draws :: "nat list"
  matings :: "(IntChromosome \<times> IntChromosome) list"
  evals :: "real list"
  interrupts :: "bool list"

definition scripted :: "script env" where
  "scripted =
     \<lparr>drawChromosomeFromCurrentGeneration =
        (\<lambda>w. case draws w of [] \<Rightarrow> (0, w) | i # r \<Rightarrow> (i, w\<lparr>draws := r\<rparr>)),
      mateWith =
        (\<lambda>p1 p2 c1 c2 w.
           case matings w of
             [] \<Rightarrow> ((c1, c2), w)
           | (a, b) # r \<Rightarrow>
               ((c1\<lparr>chromosomeParts := [a]\<rparr>, c2\<lparr>chromosomeParts := [b]\<rparr>),
                w\<lparr>matings := r\<rparr>)),
      evaluate = (\<lambda>c w. case evals w of [] \<Rightarrow> (0, w) | f # r \<Rightarrow> (f, w\<lparr>evals := r\<rparr>)),
      mutate = (\<lambda>c w. ((False, c), w)),
      randomlyReset = (\<lambda>c w. (c, w)),
      checkDuplicated = (\<lambda>_ _ _ _ _. (False, False)),
      check_interrupt =
        (\<lambda>w. case interrupts w of [] \<Rightarrow> (False, w) | b # r \<Rightarrow> (b, w\<lparr>interrupts := r\<rparr>))\<rparr>"

definition chrom :: "IntChromosome \<Rightarrow> real \<Rightarrow> Chromosome" where
  "chrom p f = \<lparr>numParts = 1, unusedBits = 54, chromosomeParts = [p], fitness = f\<rparr>"

definition script0 :: "nat list \<Rightarrow> (IntChromosome \<times> IntChromosome) list \<Rightarrow> real list
                       \<Rightarrow> script io" where
  "script0 ds ms es =
     \<lparr>world = \<lparr>draws = ds, matings = ms, evals = es, interrupts = []\<rparr>, calls = []\<rparr>"

definition exampleControl :: Control where
  "exampleControl =
     \<lparr>populationSize = 4, numThreads = 2, numGenerations = 1, maxMatingTries = 3,
      maxDuplicateEliminationTries = 2, badSolutionThreshold = 1 / 2\<rparr>"

definition exampleState :: "Chromosome list \<Rightarrow> script io \<Rightarrow> script mate_state" where
  "exampleState next s =
     \<lparr>nextGeneration = next, child1It = 0, child2It = 4, child1Tries = 0, child2Tries = 0,
      proposalChild1 = chrom 0 0, proposalChild2 = chrom 0 0, thread = s\<rparr>"

definition abandonedBefore :: "script mate_state" where
  "abandonedBefore =
     exampleState [chrom 0 0, chrom 0 0, chrom 0 0, chrom 0 0]
       (script0 [0, 1] [(1, 2)] [4, 3])"

definition abandonedAfter :: "script mate_state" where
  "abandonedAfter =
     exampleState [chrom 0 0, chrom 0 0, chrom 0 0, chrom 0 0]
       \<lparr>world = \<lparr>draws = [], matings = [], evals = [], interrupts = []\<rparr>,
         calls = [DrawChromosome 0, DrawChromosome 1, MateWith 0 1,
                  Evaluate (chrom 1 0), Evaluate (chrom 2 0),
                  MateWith 0 1, MateWith 0 1]\<rparr>"

text \<open>A setting for the spawning loop: ten children, four threads, and the creation of
  thread 1 fails.\<close>

definition exampleCreate :: "nat \<Rightarrow> bool" where
  "exampleCreate i = (i \<noteq> 1)"

definition exampleSpawn :: Control where
  "exampleSpawn =
     \<lparr>populationSize = 10, numThreads = 4, numGenerations = 1, maxMatingTries = 3,
      maxDuplicateEliminationTries = 2, badSolutionThreshold = 1 / 2\<rparr>"

text \<open>Three schedules of the barrier, for two workers and for one.\<close>

definition secondGeneration :: "move list" where
  "secondGeneration =
     [StartGeneration, WorkerStarts 0, WorkerStarts 1, WorkerFinishes 0, MainFinishes,
      WorkerFinishes 1, WorkerWakes 0, MainWakes, StartGeneration, WorkerStarts 1]"

definition firstGenerationDone :: "move list" where
  "firstGenerationDone =
     [StartGeneration, WorkerStarts 0, WorkerStarts 1, WorkerFinishes 0, MainFinishes,
      WorkerFinishes 1]"

definition workerFinishedFirst :: "move list" where
  "workerFinishedFirst = [StartGeneration, WorkerStarts 0, WorkerFinishes 0]"

text \<open>
  The schedule of the barrier in which the worker is not run between the end of the
  first generation and the moment the invoking thread has ended its second mating.
\<close>

definition staleWaiter :: "move list" where
  "staleWaiter =
     [StartGeneration, WorkerStarts 0, WorkerFinishes 0, MainFinishes,
      StartGeneration, MainFinishes]"

text \<open>
  A scripted population in which every call returns, and scripts for \<^verbatim>\<open>run\<close> with four
  chromosomes and two threads: the user interrupts while the first chromosome is made;
  the user interrupts during the second of two generations; nobody interrupts.
\<close>

definition scriptedPopulation :: "script population" where
  "scriptedPopulation =
     \<lparr>newChromosome =
        (\<lambda>w. case matings w of [] \<Rightarrow> (chrom 1 0, w)
              | (a, b) # r \<Rightarrow> (chrom a 0, w\<lparr>matings := r\<rparr>)),
      firstGeneration = (\<lambda>nextGeneration minFitness w. (nextGeneration, w)),
      laterGeneration = (\<lambda>nextGeneration. nextGeneration),
      workersMated = (\<lambda>nextGeneration. nextGeneration),
      pthread_attr_init = True,
      pthread_attr_setdetachstate = True,
      pthread_create = (\<lambda>i. True),
      barrierReturns = (\<lambda>i. True),
      pthread_join = (\<lambda>i. True)\<rparr>"

definition interruptedWhileSeeding :: "script io" where
  "interruptedWhileSeeding =
     \<lparr>world = \<lparr>draws = [], matings = [(1, 0)], evals = [1], interrupts = [True]\<rparr>,
      calls = []\<rparr>"

definition twoGenerations :: Control where
  "twoGenerations = exampleControl\<lparr>numGenerations := 2\<rparr>"

definition interruptedInSecondGeneration :: "script io" where
  "interruptedInSecondGeneration =
     \<lparr>world = \<lparr>draws = [0, 1, 0, 1],
               matings = [(1, 0), (2, 0), (3, 0), (4, 0), (5, 6), (7, 8)],
               evals = [],
               interrupts = [False, False, False, False, False, True]\<rparr>,
      calls = []\<rparr>"

definition neverInterrupted :: "script io" where
  "neverInterrupted =
     \<lparr>world = \<lparr>draws = [0, 1, 0, 1],
               matings = [(1, 0), (2, 0), (3, 0), (4, 0), (5, 6), (7, 8)],
               evals = [],
               interrupts = []\<rparr>,
      calls = []\<rparr>"

section \<open>Properties of the mating step\<close>

subsection \<open>Auxiliary facts\<close>

lemmas double_defs =
  mulDouble_def subDouble_def lessDouble_def roundDouble_def roundToEven_def pow2_def

lemma calls_callDraw: "callDraw E s = (i, s') \<Longrightarrow> calls s' = calls s @ [DrawChromosome i]"
  by (auto simp: callDraw_def split: prod.splits)

lemma calls_callMateWith:
  "callMateWith E cur i1 i2 c1 c2 s = (cs, s') \<Longrightarrow> calls s' = calls s @ [MateWith i1 i2]"
  by (auto simp: callMateWith_def split: prod.splits)

lemma calls_callEvaluate:
  "callEvaluate E c s = (c', s') \<Longrightarrow> calls s' = calls s @ [Evaluate c]"
  by (auto simp: callEvaluate_def split: prod.splits)

lemma fitness_callEvaluate:
  "callEvaluate E c s = (c', s') \<Longrightarrow> fitness c' = fst (evaluate E c (world s))"
  by (auto simp: callEvaluate_def split: prod.splits)

lemma drawSecondParent_result:
  assumes "drawSecondParent E i1 s = Some r"
  shows "fst r \<noteq> i1 \<and>
     (\<exists>n. calls (snd r) = calls s @ replicate n (DrawChromosome i1) @ [DrawChromosome (fst r)])"
proof (rule drawSecondParent.raw_induct[where P = "\<lambda>E i1 s r. fst r \<noteq> i1 \<and>
     (\<exists>n. calls (snd r) = calls s @ replicate n (DrawChromosome i1) @ [DrawChromosome (fst r)])", OF _ assms], goal_cases)
  case (1 rec E i1 s r)
  obtain i2 s' where d: "callDraw E s = (i2, s')" by (cases "callDraw E s")
  show ?case
  proof (cases "i1 = i2")
    case True
    with 1(2) d have "rec E i1 s' = Some r" by simp
    from 1(1)[OF this] obtain n where
      n: "fst r \<noteq> i1" "calls (snd r) = calls s' @ replicate n (DrawChromosome i1) @ [DrawChromosome (fst r)]"
      by blast
    have "calls (snd r) = calls s @ replicate (Suc n) (DrawChromosome i1) @ [DrawChromosome (fst r)]"
      using n(2) calls_callDraw[OF d] True by simp
    with n(1) show ?thesis by blast
  next
    case False
    with 1(2) d have r: "r = (i2, s')" by simp
    have "calls (snd r) = calls s @ replicate 0 (DrawChromosome i1) @ [DrawChromosome (fst r)]"
      using r calls_callDraw[OF d] by simp
    with False r show ?thesis by (metis fst_conv)
  qed
qed


lemma drawSecondParent_retry:
  "callDraw E s = (i1, s') \<Longrightarrow> drawSecondParent E i1 s = drawSecondParent E i1 s'"
  by (subst drawSecondParent.simps) simp

lemma drawParents_result:
  assumes "drawParents E s = Some (i1, i2, s')"
  shows "i1 \<noteq> i2 \<and>
      (\<exists>n. calls s' = calls s @ replicate (Suc n) (DrawChromosome i1) @ [DrawChromosome i2])"
proof -
  obtain k s1 where d: "callDraw E s = (k, s1)" by (cases "callDraw E s")
  from assms d have k: "k = i1" and r: "drawSecondParent E i1 s1 = Some (i2, s')"
    by (auto simp: drawParents_def split: option.splits)
  from drawSecondParent_result[OF r] obtain n where
    n: "i2 \<noteq> i1" "calls s' = calls s1 @ replicate n (DrawChromosome i1) @ [DrawChromosome i2]"
    by auto
  have "calls s' = calls s @ replicate (Suc n) (DrawChromosome i1) @ [DrawChromosome i2]"
    using n(2) calls_callDraw[OF d] k by simp
  with n(1) show ?thesis by blast
qed


lemma mateAgainWhileEmpty_result:
  assumes "mateAgainWhileEmpty E cur i1 i2 cs = Some r"
  shows "\<not> (getVariableCount (fst (fst r)) = 0 \<and> getVariableCount (snd (fst r)) = 0) \<and>
     (\<exists>n. calls (snd r) = calls (snd cs) @ replicate n (MateWith i1 i2)) \<and>
     (r = cs \<or>
      (\<exists>u v t. getVariableCount u = 0 \<and> getVariableCount v = 0 \<and>
                callMateWith E cur i1 i2 u v t = r))"
proof (rule mateAgainWhileEmpty.raw_induct[where P = "\<lambda>E cur i1 i2 cs r.
     \<not> (getVariableCount (fst (fst r)) = 0 \<and> getVariableCount (snd (fst r)) = 0) \<and>
     (\<exists>n. calls (snd r) = calls (snd cs) @ replicate n (MateWith i1 i2)) \<and>
     (r = cs \<or>
      (\<exists>u v t. getVariableCount u = 0 \<and> getVariableCount v = 0 \<and>
                callMateWith E cur i1 i2 u v t = r))", OF _ assms], goal_cases)
  case (1 rec E cur i1 i2 cs r)
  obtain c1 c2 s where cs: "cs = ((c1, c2), s)" by (metis prod.collapse)
  show ?case
  proof (cases "getVariableCount c1 = 0 \<and> getVariableCount c2 = 0")
    case True
    let ?m = "callMateWith E cur i1 i2 c1 c2 s"
    from 1(2) cs True have "rec E cur i1 i2 ?m = Some r" by simp
    from 1(1)[OF this] obtain n where
      ih: "\<not> (getVariableCount (fst (fst r)) = 0 \<and> getVariableCount (snd (fst r)) = 0)"
          "calls (snd r) = calls (snd ?m) @ replicate n (MateWith i1 i2)"
          "r = ?m \<or> (\<exists>u v t. getVariableCount u = 0 \<and> getVariableCount v = 0 \<and>
                callMateWith E cur i1 i2 u v t = r)"
      by blast
    have "calls (snd ?m) = calls s @ [MateWith i1 i2]"
      using calls_callMateWith[of E cur i1 i2 c1 c2 s "fst ?m" "snd ?m"] by simp
    with ih(2) have "calls (snd r) = calls (snd cs) @ replicate (Suc n) (MateWith i1 i2)"
      by (simp add: cs replicate_append_same)
    moreover have "\<exists>u v t. getVariableCount u = 0 \<and> getVariableCount v = 0 \<and>
                callMateWith E cur i1 i2 u v t = r"
      using ih(3) True by blast
    ultimately show ?thesis using ih(1) by blast
  next
    case False
    with 1(2) cs have "r = cs" by auto
    moreover have "calls (snd cs) = calls (snd cs) @ replicate 0 (MateWith i1 i2)" by simp
    ultimately show ?thesis using False cs by (metis fst_conv snd_conv)
  qed
qed

lemma firstChildren_result:
  assumes "firstChildren E cur i1 i2 child1 child2 s = Some ((a, b), s')"
  shows "\<exists>n x y u v t.
           calls s' = calls s @ replicate (Suc n) (MateWith i1 i2) \<and>
           callMateWith E cur i1 i2 u v t = ((x, y), s') \<and>
           ((u, v, t) = (child1, child2, s) \<or>
            getVariableCount u = 0 \<and> getVariableCount v = 0) \<and>
           \<not> (getVariableCount x = 0 \<and> getVariableCount y = 0) \<and>
           (a, b) = (if getVariableCount x = 0 then (copyChromosome y True, y)
                     else if getVariableCount y = 0 then (x, copyChromosome x True)
                     else (x, y))"
proof -
  let ?m = "callMateWith E cur i1 i2 child1 child2 s"
  from assms obtain x y where
    r: "mateAgainWhileEmpty E cur i1 i2 ?m = Some ((x, y), s')" and
    ab: "(a, b) = replaceEmptyChild (x, y)"
    by (auto simp: firstChildren_def split: option.splits)
  from mateAgainWhileEmpty_result[OF r] obtain n where
    ne: "\<not> (getVariableCount x = 0 \<and> getVariableCount y = 0)" and
    n: "calls s' = calls (snd ?m) @ replicate n (MateWith i1 i2)" and
    o: "((x, y), s') = ?m \<or>
        (\<exists>u v t. getVariableCount u = 0 \<and> getVariableCount v = 0 \<and>
                  callMateWith E cur i1 i2 u v t = ((x, y), s'))"
    by auto
  have "calls (snd ?m) = calls s @ [MateWith i1 i2]"
    using calls_callMateWith[of E cur i1 i2 child1 child2 s "fst ?m" "snd ?m"] by simp
  with n have c: "calls s' = calls s @ replicate (Suc n) (MateWith i1 i2)"
    by (simp add: replicate_append_same)
  from o obtain u v t where
    "callMateWith E cur i1 i2 u v t = ((x, y), s')"
    "(u, v, t) = (child1, child2, s) \<or> getVariableCount u = 0 \<and> getVariableCount v = 0"
    by metis
  with c ne ab show ?thesis
    unfolding replaceEmptyChild_def by (simp only: prod.case) blast
qed

lemma mateAgain_apply:
  "mateAgain E cur i1 i2 ((c1, c2), s) = callMateWith E cur i1 i2 c1 c2 s"
  by (simp add: mateAgain_def)

lemma mateAgain_calls:
  "calls (snd ((mateAgain E cur i1 i2 ^^ n) cs)) = calls (snd cs) @ replicate n (MateWith i1 i2)"
proof (induction n)
  case 0
  show ?case by simp
next
  case (Suc n)
  obtain c1 c2 s where r: "(mateAgain E cur i1 i2 ^^ n) cs = ((c1, c2), s)"
    by (metis prod.collapse)
  have "calls (snd (callMateWith E cur i1 i2 c1 c2 s)) = calls s @ [MateWith i1 i2]"
    using calls_callMateWith[of E cur i1 i2 c1 c2 s] by (metis prod.collapse)
  with Suc r show ?case
    by (simp add: mateAgain_apply replicate_append_same)
qed

lemma mateAgainWhileEmpty_returns:
  assumes "\<forall>k<n. bothEmpty (fst ((mateAgain E cur i1 i2 ^^ k) cs))"
    and "\<not> bothEmpty (fst ((mateAgain E cur i1 i2 ^^ n) cs))"
  shows "mateAgainWhileEmpty E cur i1 i2 cs = Some ((mateAgain E cur i1 i2 ^^ n) cs)"
  using assms
proof (induction n arbitrary: cs)
  case 0
  obtain c1 c2 s where cs: "cs = ((c1, c2), s)" by (metis prod.collapse)
  from 0(2) show ?case
    by (subst mateAgainWhileEmpty.simps) (auto simp: cs bothEmpty_def)
next
  case (Suc n)
  obtain c1 c2 s where cs: "cs = ((c1, c2), s)" by (metis prod.collapse)
  from Suc.prems(1) have e: "bothEmpty (fst cs)" by (metis funpow_0 zero_less_Suc)
  have "\<forall>k<n. bothEmpty (fst ((mateAgain E cur i1 i2 ^^ k) (mateAgain E cur i1 i2 cs)))"
  proof (intro allI impI)
    fix k assume "k < n"
    then have "Suc k < Suc n" by simp
    with Suc.prems(1) have "bothEmpty (fst ((mateAgain E cur i1 i2 ^^ Suc k) cs))" by blast
    then show "bothEmpty (fst ((mateAgain E cur i1 i2 ^^ k) (mateAgain E cur i1 i2 cs)))"
      by (simp only: funpow_Suc_right o_apply)
  qed
  moreover have "\<not> bothEmpty (fst ((mateAgain E cur i1 i2 ^^ n) (mateAgain E cur i1 i2 cs)))"
    using Suc.prems(2) by (simp add: funpow_swap1)
  ultimately have "mateAgainWhileEmpty E cur i1 i2 (mateAgain E cur i1 i2 cs)
      = Some ((mateAgain E cur i1 i2 ^^ n) (mateAgain E cur i1 i2 cs))"
    by (rule Suc.IH)
  then have "mateAgainWhileEmpty E cur i1 i2 (mateAgain E cur i1 i2 cs)
      = Some ((mateAgain E cur i1 i2 ^^ Suc n) cs)"
    by (simp only: funpow_Suc_right o_apply)
  moreover have "mateAgainWhileEmpty E cur i1 i2 cs
      = mateAgainWhileEmpty E cur i1 i2 (mateAgain E cur i1 i2 cs)"
    using e by (subst mateAgainWhileEmpty.simps) (simp add: cs bothEmpty_def mateAgain_apply)
  ultimately show ?case by simp
qed

lemma firstChildren_returns:
  assumes "\<forall>k<n. bothEmpty (fst ((mateAgain E cur i1 i2 ^^ k)
                      (callMateWith E cur i1 i2 child1 child2 s)))"
    and "\<not> bothEmpty (fst ((mateAgain E cur i1 i2 ^^ n)
                      (callMateWith E cur i1 i2 child1 child2 s)))"
  shows "firstChildren E cur i1 i2 child1 child2 s
           = Some (replaceEmptyChild (fst ((mateAgain E cur i1 i2 ^^ n)
                      (callMateWith E cur i1 i2 child1 child2 s))),
                   snd ((mateAgain E cur i1 i2 ^^ n)
                      (callMateWith E cur i1 i2 child1 child2 s)))"
    and "calls (snd ((mateAgain E cur i1 i2 ^^ n) (callMateWith E cur i1 i2 child1 child2 s)))
           = calls s @ replicate (Suc n) (MateWith i1 i2)"
proof -
  let ?m = "callMateWith E cur i1 i2 child1 child2 s"
  from mateAgainWhileEmpty_returns[OF assms]
  show "firstChildren E cur i1 i2 child1 child2 s
           = Some (replaceEmptyChild (fst ((mateAgain E cur i1 i2 ^^ n) ?m)),
                   snd ((mateAgain E cur i1 i2 ^^ n) ?m))"
    by (simp add: firstChildren_def split: prod.splits)
  have "calls (snd ?m) = calls s @ [MateWith i1 i2]"
    using calls_callMateWith[of E cur i1 i2 child1 child2 s] by (metis prod.collapse)
  then show "calls (snd ((mateAgain E cur i1 i2 ^^ n) ?m))
           = calls s @ replicate (Suc n) (MateWith i1 i2)"
    by (simp add: mateAgain_calls replicate_append_same)
qed

lemma replaceEmptyChild_cases:
  "(getVariableCount x = 0 \<longrightarrow> replaceEmptyChild (x, y) = (copyChromosome y True, y))
   \<and> (getVariableCount x \<noteq> 0 \<and> getVariableCount y = 0 \<longrightarrow>
        replaceEmptyChild (x, y) = (x, copyChromosome x True))
   \<and> (getVariableCount x \<noteq> 0 \<and> getVariableCount y \<noteq> 0 \<longrightarrow> replaceEmptyChild (x, y) = (x, y))
   \<and> copyChromosome x True = x"
  by (simp add: replaceEmptyChild_def copyChromosome_def)


lemma considerProposal_cases:
  assumes "considerProposal E p ((child1, child2), s) = (p', (c1, c2), s')"
  shows "(getVariableCount p = 0 \<and> p' = p \<and> c1 = child1 \<and> c2 = child2 \<and> s' = s) \<or>
         (getVariableCount p \<noteq> 0 \<and> (p', s') = callEvaluate E p s \<and>
            ((fitness p' \<le> fitness child2 \<and> c1 = child1 \<and> c2 = child2) \<or>
             (fitness child2 < fitness p' \<and> fitness p' \<le> fitness child1 \<and>
                c1 = child1 \<and> c2 = copyChromosome p' True) \<or>
             (fitness child2 < fitness p' \<and> fitness child1 < fitness p' \<and>
                c1 = copyChromosome p' True \<and> c2 = child1)))"
  using assms
  by (auto simp: considerProposal_def word_gt_0 split: prod.splits if_splits)

lemma considerProposal_ordered:
  assumes "considerProposal E p ((child1, child2), s) = (p', (c1, c2), s')"
    and "fitness child2 \<le> fitness child1"
  shows "fitness c2 \<le> fitness c1"
  using considerProposal_cases[OF assms(1)] assms(2)
  by (auto simp: copyChromosome_def)

lemma considerProposal_calls:
  assumes "considerProposal E p ((child1, child2), s) = (p', (c1, c2), s')"
  shows "\<exists>es. calls s' = calls s @ es \<and>
              (\<forall>e\<in>set es. \<exists>q. e = Evaluate q \<and> getVariableCount q \<noteq> 0)"
proof -
  from considerProposal_cases[OF assms]
  consider "s' = s" | "getVariableCount p \<noteq> 0" "(p', s') = callEvaluate E p s" by blast
  then show ?thesis
  proof cases
    case 1
    then show ?thesis by simp
  next
    case 2
    then have "calls s' = calls s @ [Evaluate p]"
      using calls_callEvaluate[of E p s p' s'] by simp
    with 2(1) show ?thesis by simp
  qed
qed

lemma evaluateChildren_ordered:
  "fitness (snd (fst (evaluateChildren E cs))) \<le> fitness (fst (fst (evaluateChildren E cs)))"
  by (auto simp: evaluateChildren_def split: prod.splits)

lemma retryMating_ordered:
  assumes "retryMating E cur i1 i2 q ((child1, child2), s) = (q', (c1, c2), s')"
    and "fitness child2 \<le> fitness child1"
  shows "fitness c2 \<le> fitness c1"
proof -
  obtain a b s1 where m: "callMateWith E cur i1 i2 (fst q) (snd q) s = ((a, b), s1)"
    by (metis prod.collapse)
  obtain a' d1 d2 s2 where p1: "considerProposal E a ((child1, child2), s1) = (a', (d1, d2), s2)"
    by (metis prod.collapse)
  obtain b' e1 e2 s3 where p2: "considerProposal E b ((d1, d2), s2) = (b', (e1, e2), s3)"
    by (metis prod.collapse)
  from assms(1) m p1 p2 have "c1 = e1" "c2 = e2"
    by (simp_all add: retryMating_def)
  moreover have "fitness d2 \<le> fitness d1"
    by (rule considerProposal_ordered[OF p1 assms(2)])
  then have "fitness e2 \<le> fitness e1"
    by (rule considerProposal_ordered[OF p2])
  ultimately show ?thesis by simp
qed

lemma retryMating_calls:
  assumes "retryMating E cur i1 i2 q (cs, s) = (q', cs', s')"
  shows "\<exists>es. calls s' = calls s @ MateWith i1 i2 # es \<and>
              (\<forall>e\<in>set es. \<exists>p. e = Evaluate p \<and> getVariableCount p \<noteq> 0)"
proof -
  obtain child1 child2 where cs: "cs = (child1, child2)" by (cases cs)
  obtain a b s1 where m: "callMateWith E cur i1 i2 (fst q) (snd q) s = ((a, b), s1)"
    by (metis prod.collapse)
  obtain a' d1 d2 s2 where p1: "considerProposal E a ((child1, child2), s1) = (a', (d1, d2), s2)"
    by (metis prod.collapse)
  obtain b' e1 e2 s3 where p2: "considerProposal E b ((d1, d2), s2) = (b', (e1, e2), s3)"
    by (metis prod.collapse)
  from assms m p1 p2 cs have s': "s' = s3"
    by (simp add: retryMating_def)
  from considerProposal_calls[OF p1] obtain es1 where
    e1: "calls s2 = calls s1 @ es1" "\<forall>e\<in>set es1. \<exists>p. e = Evaluate p \<and> getVariableCount p \<noteq> 0"
    by blast
  from considerProposal_calls[OF p2] obtain es2 where
    e2: "calls s3 = calls s2 @ es2" "\<forall>e\<in>set es2. \<exists>p. e = Evaluate p \<and> getVariableCount p \<noteq> 0"
    by blast
  have "calls s3 = calls s @ MateWith i1 i2 # (es1 @ es2)"
    using e1(1) e2(1) calls_callMateWith[OF m] by simp
  moreover have "\<forall>e\<in>set (es1 @ es2). \<exists>p. e = Evaluate p \<and> getVariableCount p \<noteq> 0"
    using e1(2) e2(2) by auto
  ultimately show ?thesis using s' by blast
qed

lemma improveChildren_ordered:
  assumes "improveChildren E ctrl cur i1 i2 m t q cs = Some r"
  shows "fitness (snd (fst cs)) \<le> fitness (fst (fst cs)) \<longrightarrow>
         fitness (snd (fst (snd r))) \<le> fitness (fst (fst (snd r)))"
proof (rule improveChildren.raw_induct[where P = "\<lambda>E ctrl cur i1 i2 m t q cs r.
         fitness (snd (fst cs)) \<le> fitness (fst (fst cs)) \<longrightarrow>
         fitness (snd (fst (snd r))) \<le> fitness (fst (fst (snd r)))", OF _ assms], goal_cases)
  case (1 rec E ctrl cur i1 i2 m t q cs r)
  show ?case
  proof (cases "fitness (fst (fst cs)) < m \<and> unat (t + 1) < maxMatingTries ctrl")
    case True
    obtain q' c1 c2 s' where rm: "retryMating E cur i1 i2 q cs = (q', (c1, c2), s')"
      by (metis prod.collapse)
    with 1(2) True have "rec E ctrl cur i1 i2 m (t + 1) q' ((c1, c2), s') = Some r" by simp
    from 1(1)[OF this] have ih: "fitness c2 \<le> fitness c1 \<longrightarrow>
         fitness (snd (fst (snd r))) \<le> fitness (fst (fst (snd r)))" by simp
    show ?thesis
    proof
      assume o: "fitness (snd (fst cs)) \<le> fitness (fst (fst cs))"
      have "retryMating E cur i1 i2 q ((fst (fst cs), snd (fst cs)), snd cs) = (q', (c1, c2), s')"
        using rm by simp
      from retryMating_ordered[OF this o] ih
      show "fitness (snd (fst (snd r))) \<le> fitness (fst (fst (snd r)))" by simp
    qed
  next
    case False
    with 1(2) have "r = (q, cs)" by auto
    then show ?thesis by simp
  qed
qed



lemma noCheck_refl: "noCheckBetween s s"
  by (simp add: noCheckBetween_def)

lemma noCheck_trans: "noCheckBetween s s1 \<Longrightarrow> noCheckBetween s1 s2 \<Longrightarrow> noCheckBetween s s2"
  by (auto simp: noCheckBetween_def)

lemma noCheck_count: "noCheckBetween s s' \<Longrightarrow> interruptChecks s' = interruptChecks s"
  by (auto simp: noCheckBetween_def interruptChecks_def count_list_0_iff)

lemma noCheck_callDraw: "callDraw E s = (i, s') \<Longrightarrow> noCheckBetween s s'"
  by (auto simp: callDraw_def noCheckBetween_def split: prod.splits)

lemma noCheck_callMateWith: "callMateWith E cur i1 i2 a b s = (r, s') \<Longrightarrow> noCheckBetween s s'"
  by (auto simp: callMateWith_def noCheckBetween_def split: prod.splits)

lemma noCheck_callEvaluate: "callEvaluate E c s = (c', s') \<Longrightarrow> noCheckBetween s s'"
  by (auto simp: callEvaluate_def noCheckBetween_def split: prod.splits)

lemma noCheck_callMutate: "callMutate E c s = (r, s') \<Longrightarrow> noCheckBetween s s'"
  by (auto simp: callMutate_def noCheckBetween_def split: prod.splits)

lemma noCheck_callRandomlyReset: "callRandomlyReset E c s = (r, s') \<Longrightarrow> noCheckBetween s s'"
  by (auto simp: callRandomlyReset_def noCheckBetween_def split: prod.splits)

lemma noCheck_drawParents:
  assumes "drawParents E s = Some (i1, i2, s')"
  shows "noCheckBetween s s'"
proof -
  from drawParents_result[OF assms] obtain n where
    "calls s' = calls s @ replicate (Suc n) (DrawChromosome i1) @ [DrawChromosome i2]"
    by blast
  then show ?thesis unfolding noCheckBetween_def by auto
qed

lemma noCheck_firstChildren:
  assumes "firstChildren E cur i1 i2 c1 c2 s = Some (cs, s')"
  shows "noCheckBetween s s'"
proof -
  obtain a b where "cs = (a, b)" by (cases cs)
  with firstChildren_result[of E cur i1 i2 c1 c2 s a b s'] assms
  obtain n where "calls s' = calls s @ replicate (Suc n) (MateWith i1 i2)" by blast
  then show ?thesis unfolding noCheckBetween_def by auto
qed

lemma noCheck_evaluateChildren:
  "evaluateChildren E (cs, s) = (cs', s') \<Longrightarrow> noCheckBetween s s'"
  by (auto simp: evaluateChildren_def split: prod.splits if_splits
           intro: noCheck_trans[OF noCheck_callEvaluate noCheck_callEvaluate])

lemma noCheck_retryMating:
  assumes "retryMating E cur i1 i2 q (cs, s) = (q', cs', s')"
  shows "noCheckBetween s s'"
proof -
  from retryMating_calls[OF assms] obtain es where
    "calls s' = calls s @ MateWith i1 i2 # es"
    "\<forall>e\<in>set es. \<exists>p. e = Evaluate p \<and> getVariableCount p \<noteq> 0" by blast
  then show ?thesis unfolding noCheckBetween_def by auto
qed

lemma noCheck_improveChildren:
  assumes "improveChildren E ctrl cur i1 i2 m t q cs = Some r"
  shows "noCheckBetween (snd cs) (snd (snd r))"
proof (rule improveChildren.raw_induct[where P = "\<lambda>E ctrl cur i1 i2 m t q cs r.
         noCheckBetween (snd cs) (snd (snd r))", OF _ assms], goal_cases)
  case (1 rec E ctrl cur i1 i2 m t q cs r)
  show ?case
  proof (cases "fitness (fst (fst cs)) < m \<and> unat (t + 1) < maxMatingTries ctrl")
    case True
    obtain q' cs' s' where rm: "retryMating E cur i1 i2 q (fst cs, snd cs) = (q', cs', s')"
      by (metis prod.collapse)
    with 1(2) True have "rec E ctrl cur i1 i2 m (t + 1) q' (cs', s') = Some r" by simp
    from 1(1)[OF this] have "noCheckBetween s' (snd (snd r))" by simp
    with noCheck_retryMating[OF rm] show ?thesis by (rule noCheck_trans)
  next
    case False
    with 1(2) have "r = (q, cs)" by auto
    then show ?thesis by (simp add: noCheck_refl)
  qed
qed

lemma breed_result:
  assumes "breed E ctrl cur st = Some (m, children, st')"
  shows "child1It st' = child1It st \<and> child2It st' = child2It st \<and>
         child1Tries st' = child1Tries st \<and> child2Tries st' = child2Tries st \<and>
         nextGeneration st' = nextGeneration st \<and>
         noCheckBetween (thread st) (thread st') \<and>
         (\<exists>i es. calls (thread st') = calls (thread st) @ DrawChromosome i # es)"
proof -
  from assms obtain i1 i2 s1 where dp: "drawParents E (thread st) = Some (i1, i2, s1)"
    by (auto simp: breed_def split: option.splits)
  from assms dp obtain cs s2 where
    fc: "firstChildren E cur i1 i2 (nextGeneration st ! child1It st)
           (nextGeneration st ! (child2It st - 1)) s1 = Some (cs, s2)"
    by (auto simp: breed_def split: option.splits)
  obtain cs3 s3 where ev: "evaluateChildren E (cs, s2) = (cs3, s3)"
    by (cases "evaluateChildren E (cs, s2)")
  from assms dp fc ev obtain q1 q2 s4 where
    im: "improveChildren E ctrl cur i1 i2 (minParentFitnessOf (cur ! i1) (cur ! i2)) 0
           (proposalChild1 st, proposalChild2 st) (cs3, s3) = Some ((q1, q2), children, s4)"
    and st': "st' = st\<lparr>proposalChild1 := q1, proposalChild2 := q2, thread := s4\<rparr>"
    by (auto simp: breed_def split: option.splits)
  have n1: "noCheckBetween (thread st) s1" by (rule noCheck_drawParents[OF dp])
  have n2: "noCheckBetween s1 s2" by (rule noCheck_firstChildren[OF fc])
  have n3: "noCheckBetween s2 s3" by (rule noCheck_evaluateChildren[OF ev])
  have n4: "noCheckBetween s3 s4" using noCheck_improveChildren[OF im] by simp
  have n: "noCheckBetween (thread st) s4"
    using n1 n2 n3 n4 by (blast intro: noCheck_trans)
  from drawParents_result[OF dp] obtain k where
    "calls s1 = calls (thread st) @ replicate (Suc k) (DrawChromosome i1) @ [DrawChromosome i2]"
    by blast
  then obtain es1 where e1: "calls s1 = calls (thread st) @ DrawChromosome i1 # es1" by simp
  from n2 n3 n4 have "noCheckBetween s1 s4" by (blast intro: noCheck_trans)
  then obtain es2 where "calls s4 = calls s1 @ es2" unfolding noCheckBetween_def by blast
  with e1 have "calls s4 = calls (thread st) @ DrawChromosome i1 # (es1 @ es2)" by simp
  with n st' show ?thesis by auto
qed

lemma noCheck_settleChild:
  assumes "settleChild E ctrl dup tries mutated child s = (adv, tries', c, s')"
  shows "noCheckBetween s s'"
proof -
  let ?t = "if dup then tries + 1 else tries"
  show ?thesis
  proof (cases "\<not> dup \<or> unat ?t > maxDuplicateEliminationTries ctrl")
    case False
    with assms have "s' = s" by (auto simp: settleChild_def Let_def)
    then show ?thesis by (simp add: noCheck_refl)
  next
    case True
    obtain mu c1 s1 where r: "(if unat ?t > maxDuplicateEliminationTries ctrl
               then (case callRandomlyReset E child s of (c, s1) \<Rightarrow> (True, c, s1))
               else (mutated, child, s)) = (mu, c1, s1)"
      by (metis prod.collapse)
    have a: "noCheckBetween s s1"
      using r by (auto split: if_splits prod.splits intro: noCheck_callRandomlyReset noCheck_refl)
    obtain c2 s2 where e: "(if mu then callEvaluate E c1 s1 else (c1, s1)) = (c2, s2)"
      by (metis prod.collapse)
    have b: "noCheckBetween s1 s2"
      using e by (auto split: if_splits intro: noCheck_callEvaluate noCheck_refl)
    from assms True r e have "s' = s2"
      by (simp add: settleChild_def Let_def)
    with a b show ?thesis by (blast intro: noCheck_trans)
  qed
qed

lemma thread_storeChildren [simp]: "thread (storeChildren cs st) = thread st"
  and child1It_storeChildren [simp]: "child1It (storeChildren cs st) = child1It st"
  and child2It_storeChildren [simp]: "child2It (storeChildren cs st) = child2It st"
  and child1Tries_storeChildren [simp]: "child1Tries (storeChildren cs st) = child1Tries st"
  and child2Tries_storeChildren [simp]: "child2Tries (storeChildren cs st) = child2Tries st"
  by (simp_all add: storeChildren_def)

lemma finishPair_bad:
  "badSolution ctrl m (fitness (fst children)) \<Longrightarrow>
     finishPair E ctrl rb re chk m children st = Returned (storeChildren children st)"
  by (simp add: finishPair_def)

lemma finishPair_good:
  assumes "\<not> badSolution ctrl m (fitness (fst children))"
  shows "\<exists>s4 st'. noCheckBetween (thread st) s4 \<and>
           (if chk then
              (case callCheckInterrupt E s4 of
                 (intr, s5) \<Rightarrow>
                    finishPair E ctrl rb re chk m children st =
                      (if intr then InterruptException (st'\<lparr>thread := s5\<rparr>)
                       else Returned (st'\<lparr>thread := s5\<rparr>)))
            else finishPair E ctrl rb re chk m children st = Returned st' \<and> thread st' = s4)"
proof -
  obtain b1 m1 s1 where c1: "callMutate E (fst children) (thread st) = ((b1, m1), s1)"
    by (metis prod.collapse)
  obtain b2 m2 s2 where c2: "callMutate E (snd children) s1 = ((b2, m2), s2)"
    by (metis prod.collapse)
  obtain dup1 dup2 where d: "checkDuplicated E (nextGeneration (storeChildren (m1, m2) st))
                rb re (child1It st) (child2It st) = (dup1, dup2)"
    by (metis prod.collapse)
  obtain adv1 t1 x1 s3 where e1: "settleChild E ctrl dup1 (child1Tries st) b1 m1 s2 = (adv1, t1, x1, s3)"
    by (metis prod.collapse)
  obtain adv2 t2 x2 s4 where e2: "settleChild E ctrl dup2 (child2Tries st) b2 m2 s3 = (adv2, t2, x2, s4)"
    by (metis prod.collapse)
  have n: "noCheckBetween (thread st) s4"
    using noCheck_callMutate[OF c1] noCheck_callMutate[OF c2]
      noCheck_settleChild[OF e1] noCheck_settleChild[OF e2]
    by (blast intro: noCheck_trans)
  let ?st' = "(storeChildren (x1, x2) st)
                     \<lparr>child1It := (if adv1 then child1It st + 1 else child1It st),
                      child2It := (if adv2 then child2It st - 1 else child2It st),
                      child1Tries := t1, child2Tries := t2, thread := s4\<rparr>"
  have "if chk then
              (case callCheckInterrupt E s4 of
                 (intr, s5) \<Rightarrow>
                    finishPair E ctrl rb re chk m children st =
                      (if intr then InterruptException (?st'\<lparr>thread := s5\<rparr>)
                       else Returned (?st'\<lparr>thread := s5\<rparr>)))
            else finishPair E ctrl rb re chk m children st = Returned ?st' \<and> thread ?st' = s4"
    using assms c1 c2 d e1 e2
    by (simp add: finishPair_def Let_def split: prod.splits)
  with n show ?thesis by blast
qed

lemma calls_callCheckInterrupt:
  "callCheckInterrupt E s = (b, s') \<Longrightarrow> calls s' = calls s @ [CheckInterrupt]"
  by (auto simp: callCheckInterrupt_def split: prod.splits)

lemma finishPair_checks:
  "interruptChecks (thread (resultState (finishPair E ctrl rb re chk m children st))) =
     (if chk \<and> \<not> badSolution ctrl m (fitness (fst children))
      then Suc (interruptChecks (thread st)) else interruptChecks (thread st))"
proof (cases "badSolution ctrl m (fitness (fst children))")
  case True
  then show ?thesis by (simp add: finishPair_bad)
next
  case False
  from finishPair_good[OF False, where st=st and E=E and chk=chk and rb=rb and re=re] obtain s4 st' where
    n: "noCheckBetween (thread st) s4" and
    f: "if chk then
              (case callCheckInterrupt E s4 of
                 (intr, s5) \<Rightarrow>
                    finishPair E ctrl rb re chk m children st =
                      (if intr then InterruptException (st'\<lparr>thread := s5\<rparr>)
                       else Returned (st'\<lparr>thread := s5\<rparr>)))
            else finishPair E ctrl rb re chk m children st = Returned st' \<and> thread st' = s4"
    by blast
  show ?thesis
  proof (cases chk)
    case True
    obtain b s5 where c: "callCheckInterrupt E s4 = (b, s5)" by (metis prod.collapse)
    with f True have "thread (resultState (finishPair E ctrl rb re chk m children st)) = s5"
      by (cases b) simp_all
    moreover have "interruptChecks s5 = Suc (interruptChecks s4)"
      using calls_callCheckInterrupt[OF c] by (simp add: interruptChecks_def)
    ultimately show ?thesis using noCheck_count[OF n] True False by simp
  next
    case False
    with f have "thread (resultState (finishPair E ctrl rb re chk m children st)) = s4" by simp
    with noCheck_count[OF n] False show ?thesis by simp
  qed
qed

lemma finishPair_worker:
  "\<exists>st'. finishPair E ctrl rb re False m children st = Returned st' \<and>
         noCheckBetween (thread st) (thread st')"
proof (cases "badSolution ctrl m (fitness (fst children))")
  case True
  then show ?thesis by (simp add: finishPair_bad noCheck_refl)
next
  case False
  from finishPair_good[OF False, where st=st and E=E and chk=False and rb=rb and re=re] show ?thesis by auto
qed

lemma matePair_worker:
  assumes "matePair E ctrl cur rb re False st = Some r"
  shows "\<exists>st'. r = Returned st' \<and> noCheckBetween (thread st) (thread st')"
proof -
  from assms obtain m children st1 where
    b: "breed E ctrl cur st = Some (m, children, st1)" and
    r: "r = finishPair E ctrl rb re False m children st1"
    by (auto simp: matePair_def split: option.splits)
  from breed_result[OF b] have "noCheckBetween (thread st) (thread st1)" by simp
  with finishPair_worker[of E ctrl rb re m children st1] r show ?thesis
    by (auto intro: noCheck_trans)
qed

lemma mateLoop_worker:
  assumes "mateLoop E ctrl cur rb re chk st = Some r"
  shows "\<not> chk \<longrightarrow> (\<exists>st'. r = Returned st' \<and> noCheckBetween (thread st) (thread st'))"
proof (rule mateLoop.raw_induct[where P = "\<lambda>E ctrl cur rb re chk st r.
         \<not> chk \<longrightarrow> (\<exists>st'. r = Returned st' \<and> noCheckBetween (thread st) (thread st'))",
         OF _ assms], goal_cases)
  case (1 rec E ctrl cur rb re chk st r)
  show ?case
  proof
    assume w: "\<not> chk"
    show "\<exists>st'. r = Returned st' \<and> noCheckBetween (thread st) (thread st')"
    proof (cases "child1It st \<noteq> child2It st \<and> child1It st \<noteq> child2It st - 1")
      case False
      with 1(2) have "r = Returned st" by auto
      then show ?thesis by (simp add: noCheck_refl)
    next
      case True
      with 1(2) obtain r1 where m: "matePair E ctrl cur rb re chk st = Some r1"
        by (auto split: option.splits)
      with w matePair_worker[of E ctrl cur rb re st r1] obtain st1 where
        r1: "r1 = Returned st1" and n1: "noCheckBetween (thread st) (thread st1)" by auto
      from 1(2) True m r1 have "rec E ctrl cur rb re chk st1 = Some r" by simp
      from 1(1)[OF this] w obtain st' where
        "r = Returned st'" "noCheckBetween (thread st1) (thread st')" by blast
      with n1 show ?thesis by (blast intro: noCheck_trans)
    qed
  qed
qed

lemma mate_worker:
  assumes "mate E ctrl cur next n off False s = Some r"
  shows "\<exists>st. r = Returned st \<and> noCheckBetween s (thread st)"
  using mateLoop_worker[OF assms[unfolded mate_def]] by simp

subsection \<open>The parents of a pair\<close>



subsection \<open>Empty children\<close>

text \<open>
  Claim C7.  The first children of a pair are made by mating the two parents \<open>i1\<close>,
  \<open>i2\<close>, and by mating the same two again for as long as both children come out
  without a variable: when the first \<open>n\<close> matings each leave two empty children and the
  next one does not, \<^verbatim>\<open>firstChildren\<close> returns after exactly these \<open>n + 1\<close> matings of \<open>i1\<close>
  and \<open>i2\<close>, having called nothing else (no parent is drawn again), with the last pair,
  in which a single empty child is replaced by a copy of the other one and nothing is
  changed when neither is empty; the copy equals the child it is made from.
  Conversely, whenever \<^verbatim>\<open>firstChildren\<close> returns, its calls are matings of \<open>i1\<close> and \<open>i2\<close>
  only, and the pair \<open>(x, y)\<close> it ends with was produced by the first mating or by one
  that followed two empty children.
\<close>

theorem empty_children_remate_same_parents:
  "((\<forall>k<n. bothEmpty (fst ((mateAgain E cur i1 i2 ^^ k)
                              (callMateWith E cur i1 i2 child1 child2 s))))
      \<and> \<not> bothEmpty (fst ((mateAgain E cur i1 i2 ^^ n)
                              (callMateWith E cur i1 i2 child1 child2 s))) \<longrightarrow>
      firstChildren E cur i1 i2 child1 child2 s
        = Some (replaceEmptyChild (fst ((mateAgain E cur i1 i2 ^^ n)
                                          (callMateWith E cur i1 i2 child1 child2 s))),
                snd ((mateAgain E cur i1 i2 ^^ n) (callMateWith E cur i1 i2 child1 child2 s)))
      \<and> calls (snd ((mateAgain E cur i1 i2 ^^ n) (callMateWith E cur i1 i2 child1 child2 s)))
          = calls s @ replicate (Suc n) (MateWith i1 i2))
   \<and> mateAgain E cur i1 i2 ((c1, c2), t0) = callMateWith E cur i1 i2 c1 c2 t0
   \<and> (getVariableCount c1 = 0 \<longrightarrow> replaceEmptyChild (c1, c2) = (copyChromosome c2 True, c2))
   \<and> (getVariableCount c1 \<noteq> 0 \<and> getVariableCount c2 = 0 \<longrightarrow>
        replaceEmptyChild (c1, c2) = (c1, copyChromosome c1 True))
   \<and> (getVariableCount c1 \<noteq> 0 \<and> getVariableCount c2 \<noteq> 0 \<longrightarrow>
        replaceEmptyChild (c1, c2) = (c1, c2))
   \<and> copyChromosome c1 True = c1
   \<and> (firstChildren E cur i1 i2 child1 child2 s = Some ((a, b), s') \<longrightarrow>
        (\<exists>n x y u v t.
           calls s' = calls s @ replicate (Suc n) (MateWith i1 i2) \<and>
           callMateWith E cur i1 i2 u v t = ((x, y), s') \<and>
           ((u, v, t) = (child1, child2, s) \<or>
            getVariableCount u = 0 \<and> getVariableCount v = 0) \<and>
           \<not> (getVariableCount x = 0 \<and> getVariableCount y = 0) \<and>
           (a, b) = (if getVariableCount x = 0 then (copyChromosome y True, y)
                     else if getVariableCount y = 0 then (x, copyChromosome x True)
                     else (x, y))))"
proof (intro conjI impI)
  assume h: "(\<forall>k<n. bothEmpty (fst ((mateAgain E cur i1 i2 ^^ k)
                              (callMateWith E cur i1 i2 child1 child2 s))))
      \<and> \<not> bothEmpty (fst ((mateAgain E cur i1 i2 ^^ n)
                              (callMateWith E cur i1 i2 child1 child2 s)))"
  then have h1: "\<forall>k<n. bothEmpty (fst ((mateAgain E cur i1 i2 ^^ k)
                              (callMateWith E cur i1 i2 child1 child2 s)))"
    and h2: "\<not> bothEmpty (fst ((mateAgain E cur i1 i2 ^^ n)
                              (callMateWith E cur i1 i2 child1 child2 s)))"
    by blast+
  show "firstChildren E cur i1 i2 child1 child2 s
        = Some (replaceEmptyChild (fst ((mateAgain E cur i1 i2 ^^ n)
                                          (callMateWith E cur i1 i2 child1 child2 s))),
                snd ((mateAgain E cur i1 i2 ^^ n) (callMateWith E cur i1 i2 child1 child2 s)))"
    by (rule firstChildren_returns(1)[OF h1 h2])
  show "calls (snd ((mateAgain E cur i1 i2 ^^ n) (callMateWith E cur i1 i2 child1 child2 s)))
          = calls s @ replicate (Suc n) (MateWith i1 i2)"
    by (rule firstChildren_returns(2)[OF h1 h2])
next
  show "mateAgain E cur i1 i2 ((c1, c2), t0) = callMateWith E cur i1 i2 c1 c2 t0"
    by (rule mateAgain_apply)
next
  assume "getVariableCount c1 = 0"
  then show "replaceEmptyChild (c1, c2) = (copyChromosome c2 True, c2)"
    using replaceEmptyChild_cases by blast
next
  assume "getVariableCount c1 \<noteq> 0 \<and> getVariableCount c2 = 0"
  then show "replaceEmptyChild (c1, c2) = (c1, copyChromosome c1 True)"
    using replaceEmptyChild_cases by blast
next
  assume "getVariableCount c1 \<noteq> 0 \<and> getVariableCount c2 \<noteq> 0"
  then show "replaceEmptyChild (c1, c2) = (c1, c2)"
    using replaceEmptyChild_cases by blast
next
  show "copyChromosome c1 True = c1"
    by (simp add: copyChromosome_def)
next
  assume "firstChildren E cur i1 i2 child1 child2 s = Some ((a, b), s')"
  then show "\<exists>n x y u v t.
           calls s' = calls s @ replicate (Suc n) (MateWith i1 i2) \<and>
           callMateWith E cur i1 i2 u v t = ((x, y), s') \<and>
           ((u, v, t) = (child1, child2, s) \<or>
            getVariableCount u = 0 \<and> getVariableCount v = 0) \<and>
           \<not> (getVariableCount x = 0 \<and> getVariableCount y = 0) \<and>
           (a, b) = (if getVariableCount x = 0 then (copyChromosome y True, y)
                     else if getVariableCount y = 0 then (x, copyChromosome x True)
                     else (x, y))"
    by (rule firstChildren_result)
qed

text \<open>
  The theorem at a pair whose first mating leaves two empty children and whose second
  mating leaves the first child empty: two matings of the parents 0 and 1, and the
  empty first child becomes a copy of the second.
\<close>

theorem empty_children_remate_same_parents_witness:
  "bothEmpty (fst (callMateWith scripted [chrom 5 1, chrom 5 1] 0 1 (chrom 0 0) (chrom 0 0)
                     (script0 [] [(0, 0), (0, 3)] [])))
   \<and> (mateAgain scripted [chrom 5 1, chrom 5 1] 0 1 ^^ Suc 0)
         (callMateWith scripted [chrom 5 1, chrom 5 1] 0 1 (chrom 0 0) (chrom 0 0)
            (script0 [] [(0, 0), (0, 3)] []))
       = ((chrom 0 0, chrom 3 0),
          \<lparr>world = \<lparr>draws = [], matings = [], evals = [], interrupts = []\<rparr>,
            calls = [MateWith 0 1, MateWith 0 1]\<rparr>)
   \<and> \<not> bothEmpty (chrom 0 0, chrom 3 0)
   \<and> getVariableCount (chrom 0 0) = 0
   \<and> replaceEmptyChild (chrom 0 0, chrom 3 0) = (chrom 3 0, chrom 3 0)
   \<and> firstChildren scripted [chrom 5 1, chrom 5 1] 0 1 (chrom 0 0) (chrom 0 0)
       (script0 [] [(0, 0), (0, 3)] [])
     = Some ((chrom 3 0, chrom 3 0),
             \<lparr>world = \<lparr>draws = [], matings = [], evals = [], interrupts = []\<rparr>,
               calls = [MateWith 0 1, MateWith 0 1]\<rparr>)"
proof -
  have e0: "bothEmpty (fst (callMateWith scripted [chrom 5 1, chrom 5 1] 0 1 (chrom 0 0)
                     (chrom 0 0) (script0 [] [(0, 0), (0, 3)] [])))"
    by code_simp
  have m: "(mateAgain scripted [chrom 5 1, chrom 5 1] 0 1 ^^ Suc 0)
         (callMateWith scripted [chrom 5 1, chrom 5 1] 0 1 (chrom 0 0) (chrom 0 0)
            (script0 [] [(0, 0), (0, 3)] []))
       = ((chrom 0 0, chrom 3 0),
          \<lparr>world = \<lparr>draws = [], matings = [], evals = [], interrupts = []\<rparr>,
            calls = [MateWith 0 1, MateWith 0 1]\<rparr>)"
    by code_simp
  have e1: "\<not> bothEmpty (chrom 0 0, chrom 3 0)"
    by code_simp
  have v: "getVariableCount (chrom 0 0) = 0"
    by code_simp
  have r: "replaceEmptyChild (chrom 0 0, chrom 3 0) = (chrom 3 0, chrom 3 0)"
    by code_simp
  have a: "\<forall>k<Suc 0. bothEmpty (fst ((mateAgain scripted [chrom 5 1, chrom 5 1] 0 1 ^^ k)
              (callMateWith scripted [chrom 5 1, chrom 5 1] 0 1 (chrom 0 0) (chrom 0 0)
                 (script0 [] [(0, 0), (0, 3)] []))))"
    using e0 by simp
  have b: "\<not> bothEmpty (fst ((mateAgain scripted [chrom 5 1, chrom 5 1] 0 1 ^^ Suc 0)
              (callMateWith scripted [chrom 5 1, chrom 5 1] 0 1 (chrom 0 0) (chrom 0 0)
                 (script0 [] [(0, 0), (0, 3)] []))))"
    unfolding m using e1 by simp
  from empty_children_remate_same_parents
         [of "Suc 0" scripted "[chrom 5 1, chrom 5 1]" 0 1 "chrom 0 0" "chrom 0 0"
             "script0 [] [(0, 0), (0, 3)] []"] a b
  have "firstChildren scripted [chrom 5 1, chrom 5 1] 0 1 (chrom 0 0) (chrom 0 0)
       (script0 [] [(0, 0), (0, 3)] [])
     = Some (replaceEmptyChild (fst ((mateAgain scripted [chrom 5 1, chrom 5 1] 0 1 ^^ Suc 0)
              (callMateWith scripted [chrom 5 1, chrom 5 1] 0 1 (chrom 0 0) (chrom 0 0)
                 (script0 [] [(0, 0), (0, 3)] [])))),
             snd ((mateAgain scripted [chrom 5 1, chrom 5 1] 0 1 ^^ Suc 0)
              (callMateWith scripted [chrom 5 1, chrom 5 1] 0 1 (chrom 0 0) (chrom 0 0)
                 (script0 [] [(0, 0), (0, 3)] []))))"
    by blast
  then have f: "firstChildren scripted [chrom 5 1, chrom 5 1] 0 1 (chrom 0 0) (chrom 0 0)
       (script0 [] [(0, 0), (0, 3)] [])
     = Some ((chrom 3 0, chrom 3 0),
             \<lparr>world = \<lparr>draws = [], matings = [], evals = [], interrupts = []\<rparr>,
               calls = [MateWith 0 1, MateWith 0 1]\<rparr>)"
    unfolding m using r by simp
  from e0 m e1 v r f show ?thesis by blast
qed

subsection \<open>Strict improvement and the order of the two children\<close>

text \<open>
  Claim C6.  A proposal whose fitness is not greater than the second child's replaces
  nothing, and one whose fitness is not greater than the first child's is not promoted
  to first child (in particular a tie never replaces or promotes).  After the first
  evaluation of the children, after a retry, and when the retry loop returns, the first
  child's fitness is at least the second child's.
\<close>

theorem strict_improvement_keeps_children_ordered:
  "(fst (evaluate E p (world s)) \<le> fitness child2 \<longrightarrow>
      fst (snd (considerProposal E p ((child1, child2), s))) = (child1, child2))
   \<and> (fst (evaluate E p (world s)) \<le> fitness child1 \<longrightarrow>
      fst (fst (snd (considerProposal E p ((child1, child2), s)))) = child1)
   \<and> fitness (snd (fst (evaluateChildren E cs))) \<le> fitness (fst (fst (evaluateChildren E cs)))
   \<and> (fitness child2 \<le> fitness child1 \<longrightarrow>
      fitness (snd (fst (snd (retryMating E cur i1 i2 q ((child1, child2), s)))))
        \<le> fitness (fst (fst (snd (retryMating E cur i1 i2 q ((child1, child2), s))))))
   \<and> (improveChildren E ctrl cur i1 i2 m 0 q (evaluateChildren E cs) = Some r \<longrightarrow>
      fitness (snd (fst (snd r))) \<le> fitness (fst (fst (snd r))))"
proof (intro conjI impI)
  assume "fst (evaluate E p (world s)) \<le> fitness child2"
  then show "fst (snd (considerProposal E p ((child1, child2), s))) = (child1, child2)"
    by (auto simp: considerProposal_def callEvaluate_def split: prod.splits)
next
  assume "fst (evaluate E p (world s)) \<le> fitness child1"
  then show "fst (fst (snd (considerProposal E p ((child1, child2), s)))) = child1"
    by (auto simp: considerProposal_def callEvaluate_def split: prod.splits)
next
  show "fitness (snd (fst (evaluateChildren E cs))) \<le> fitness (fst (fst (evaluateChildren E cs)))"
    by (rule evaluateChildren_ordered)
next
  assume o: "fitness child2 \<le> fitness child1"
  let ?r = "retryMating E cur i1 i2 q ((child1, child2), s)"
  have "?r = (fst ?r, (fst (fst (snd ?r)), snd (fst (snd ?r))), snd (snd ?r))" by simp
  from retryMating_ordered[OF this o]
  show "fitness (snd (fst (snd ?r))) \<le> fitness (fst (fst (snd ?r)))" .
next
  assume "improveChildren E ctrl cur i1 i2 m 0 q (evaluateChildren E cs) = Some r"
  from improveChildren_ordered[OF this] evaluateChildren_ordered[of E cs]
  show "fitness (snd (fst (snd r))) \<le> fitness (fst (fst (snd r)))" by simp
qed

theorem strict_improvement_keeps_children_ordered_witness:
  "fst (evaluate scripted (chrom 1 0) (world (script0 [] [] [5]))) \<le> fitness (chrom 2 5)
   \<and> fst (snd (considerProposal scripted (chrom 1 0) ((chrom 1 7, chrom 2 5), script0 [] [] [5])))
       = (chrom 1 7, chrom 2 5)
   \<and> fitness (chrom 2 5) \<le> fitness (chrom 1 7)
   \<and> (\<exists>r. improveChildren scripted exampleControl [chrom 1 10, chrom 1 8] 0 1 10 0
              (chrom 0 0, chrom 0 0)
              (evaluateChildren scripted ((chrom 1 0, chrom 2 0), script0 [] [(4, 8)] [3, 9, 6, 2]))
            = Some r
          \<and> fitness (fst (fst (snd r))) = 9 \<and> fitness (snd (fst (snd r))) = 6
          \<and> fitness (snd (fst (snd r))) \<le> fitness (fst (fst (snd r))))"
proof -
  have e: "fst (evaluate scripted (chrom 1 0) (world (script0 [] [] [5]))) \<le> fitness (chrom 2 5)"
    by code_simp
  have o: "fitness (chrom 2 5) \<le> fitness (chrom 1 7)"
    by code_simp
  have h: "improveChildren scripted exampleControl [chrom 1 10, chrom 1 8] 0 1 10 0
              (chrom 0 0, chrom 0 0)
              (evaluateChildren scripted ((chrom 1 0, chrom 2 0), script0 [] [(4, 8)] [3, 9, 6, 2]))
            = Some ((chrom 4 0, chrom 8 0), (chrom 2 9, chrom 4 6),
                    \<lparr>world = \<lparr>draws = [], matings = [], evals = [], interrupts = []\<rparr>,
                      calls = [Evaluate (chrom 1 0), Evaluate (chrom 2 0), MateWith 0 1,
                               Evaluate (chrom 4 0), Evaluate (chrom 8 0), MateWith 0 1,
                               Evaluate (chrom 4 6), Evaluate (chrom 8 2)]\<rparr>)"
    by code_simp
  have f: "fitness (chrom 2 9) = 9" "fitness (chrom 4 6) = 6"
    by (simp_all add: chrom_def)
  from strict_improvement_keeps_children_ordered
         [of scripted "chrom 1 0" "script0 [] [] [5]" "chrom 2 5" "chrom 1 7"
             "((chrom 1 0, chrom 2 0), script0 [] [(4, 8)] [3, 9, 6, 2])"
             "[chrom 1 10, chrom 1 8]" 0 1 "(chrom 0 0, chrom 0 0)" exampleControl 10] e o h f
  show ?thesis by simp
qed

subsection \<open>The improvement retries\<close>




subsection \<open>Abandoning a pair\<close>

text \<open>
  Claim C1, as amended.  When, after the retries, the first child's fitness is below
  the bound that the source computes in \<^verbatim>\<open>double\<close> arithmetic,
  \<open>minParentFitness - badSolutionThreshold * \<bar>minParentFitness\<bar>\<close> with the product
  rounded and then the difference rounded, the iteration ends at once: the two
  children stay in their slots, neither slot index moves and nothing else is called;
  the loop goes on from the same two slots, and its next iteration starts by drawing
  parents.  Where neither operation rounds, the bound is the exact value of that
  expression; with a threshold of 0.5 and \<open>minParentFitness = 10\<close> it is 5, so that a
  fitness of 4.9 is abandoned and one of 5.1 is not.
\<close>

theorem bad_solution_restarts_pair:
  "(badSolution ctrl m (fitness (fst children)) \<longrightarrow>
      finishPair E ctrl rb re chk m children st = Returned (storeChildren children st)
      \<and> child1It (storeChildren children st) = child1It st
      \<and> child2It (storeChildren children st) = child2It st
      \<and> thread (storeChildren children st) = thread st)
   \<and> (breed E ctrl cur st0 = Some (m, children, st)
        \<and> badSolution ctrl m (fitness (fst children))
        \<and> child1It st0 \<noteq> child2It st0 \<and> child1It st0 \<noteq> child2It st0 - 1 \<longrightarrow>
      mateLoop E ctrl cur rb re chk st0 = mateLoop E ctrl cur rb re chk (storeChildren children st)
      \<and> child1It (storeChildren children st) = child1It st0
      \<and> child2It (storeChildren children st) = child2It st0)
   \<and> (breed E ctrl cur st0 = Some (m, children, st) \<longrightarrow>
        (\<exists>i es. calls (thread st) = calls (thread st0) @ DrawChromosome i # es))
   \<and> (roundDouble (badSolutionThreshold ctrl * \<bar>m\<bar>) = Finite (badSolutionThreshold ctrl * \<bar>m\<bar>)
        \<and> roundDouble (m - badSolutionThreshold ctrl * \<bar>m\<bar>)
            = Finite (m - badSolutionThreshold ctrl * \<bar>m\<bar>) \<longrightarrow>
        badSolution ctrl m f = (f < m - badSolutionThreshold ctrl * \<bar>m\<bar>))
   \<and> (badSolutionThreshold ctrl = 1 / 2 \<longrightarrow> badSolution ctrl 10 f = (f < 5))"
proof (intro conjI impI)
  assume "badSolution ctrl m (fitness (fst children))"
  then show "finishPair E ctrl rb re chk m children st = Returned (storeChildren children st)"
    by (rule finishPair_bad)
next
  assume a: "breed E ctrl cur st0 = Some (m, children, st)
        \<and> badSolution ctrl m (fitness (fst children))
        \<and> child1It st0 \<noteq> child2It st0 \<and> child1It st0 \<noteq> child2It st0 - 1"
  then have "matePair E ctrl cur rb re chk st0 = Some (Returned (storeChildren children st))"
    by (simp add: matePair_def finishPair_bad)
  with a show "mateLoop E ctrl cur rb re chk st0
                 = mateLoop E ctrl cur rb re chk (storeChildren children st)"
    by (subst mateLoop.simps) simp
  from a breed_result[of E ctrl cur st0 m children st]
  show "child1It (storeChildren children st) = child1It st0"
    and "child2It (storeChildren children st) = child2It st0" by simp_all
next
  assume "breed E ctrl cur st0 = Some (m, children, st)"
  from breed_result[OF this]
  show "\<exists>i es. calls (thread st) = calls (thread st0) @ DrawChromosome i # es" by blast
next
  assume "roundDouble (badSolutionThreshold ctrl * \<bar>m\<bar>) = Finite (badSolutionThreshold ctrl * \<bar>m\<bar>)
        \<and> roundDouble (m - badSolutionThreshold ctrl * \<bar>m\<bar>)
            = Finite (m - badSolutionThreshold ctrl * \<bar>m\<bar>)"
  then show "badSolution ctrl m f = (f < m - badSolutionThreshold ctrl * \<bar>m\<bar>)"
    by (simp add: badSolution_def mulDouble_def subDouble_def lessDouble_def)
next
  assume t: "badSolutionThreshold ctrl = 1 / 2"
  have "subDouble 10 (mulDouble (1 / 2) \<bar>10\<bar>) = Finite 5"
    by (simp add: double_defs)
  then show "badSolution ctrl 10 f = (f < 5)"
    unfolding badSolution_def t by (simp add: lessDouble_def)
qed simp_all

text \<open>
  The theorem at a pair that is abandoned, and the test at four more inputs: the
  doubles nearest to 4.9 and to 5.1 against parents of fitness 10, and two inputs at
  which the rounding decides (threshold \<open>1 - 1 / 2 ^ 30\<close>, \<open>minParentFitness\<close>
  \<open>1 + 1 / 2 ^ 30\<close>, fitness \<open>1 / 2 ^ 30\<close>: the product rounds to 1 and the pair is
  kept, where the exact bound would abandon it; the doubles
  nearest to 0.76, 25.5 and 6.12: the pair is abandoned).
\<close>

theorem bad_solution_restarts_pair_witness:
  "breed scripted exampleControl [chrom 1 10, chrom 1 8] abandonedBefore
     = Some (10, (chrom 1 4, chrom 2 3), abandonedAfter)
   \<and> badSolution exampleControl 10 (fitness (fst (chrom 1 4, chrom 2 3)))
   \<and> finishPair scripted exampleControl 0 4 True 10 (chrom 1 4, chrom 2 3) abandonedAfter
       = Returned (storeChildren (chrom 1 4, chrom 2 3) abandonedAfter)
   \<and> child1It (storeChildren (chrom 1 4, chrom 2 3) abandonedAfter) = child1It abandonedBefore
   \<and> child2It (storeChildren (chrom 1 4, chrom 2 3) abandonedAfter) = child2It abandonedBefore
   \<and> badSolutionThreshold exampleControl = 1 / 2
   \<and> roundDouble (49 / 10) = Finite (5516909543528858 / 2 ^ 50)
   \<and> badSolution exampleControl 10 (5516909543528858 / 2 ^ 50)
   \<and> roundDouble (51 / 10) = Finite (5742089524897382 / 2 ^ 50)
   \<and> \<not> badSolution exampleControl 10 (5742089524897382 / 2 ^ 50)
   \<and> \<not> badSolution (exampleControl\<lparr>badSolutionThreshold := 1 - 1 / 2 ^ 30\<rparr>)
         (1 + 1 / 2 ^ 30) (1 / 2 ^ 30)
   \<and> badSolution (exampleControl\<lparr>badSolutionThreshold := 3422735716801577 / 2 ^ 52\<rparr>)
         (51 / 2) (6890507429876859 / 2 ^ 50)"
proof -
  have b: "breed scripted exampleControl [chrom 1 10, chrom 1 8] abandonedBefore
             = Some (10, (chrom 1 4, chrom 2 3), abandonedAfter)"
    by code_simp
  have t: "badSolutionThreshold exampleControl = 1 / 2"
    by (simp add: exampleControl_def)
  have bad: "badSolution exampleControl 10 (fitness (fst (chrom 1 4, chrom 2 3)))"
    by (simp add: badSolution_def double_defs exampleControl_def chrom_def)
  have l: "child1It abandonedBefore \<noteq> child2It abandonedBefore \<and>
           child1It abandonedBefore \<noteq> child2It abandonedBefore - 1"
    by (simp add: abandonedBefore_def exampleState_def)
  have r49: "roundDouble (49 / 10) = Finite (5516909543528858 / 2 ^ 50)"
    by (simp add: double_defs)
  have r51: "roundDouble (51 / 10) = Finite (5742089524897382 / 2 ^ 50)"
    by (simp add: double_defs)
  have v: "\<not> badSolution (exampleControl\<lparr>badSolutionThreshold := 1 - 1 / 2 ^ 30\<rparr>)
         (1 + 1 / 2 ^ 30) (1 / 2 ^ 30)"
    by (simp add: badSolution_def double_defs)
  have w: "badSolution (exampleControl\<lparr>badSolutionThreshold := 3422735716801577 / 2 ^ 52\<rparr>)
         (51 / 2) (6890507429876859 / 2 ^ 50)"
    by (simp add: badSolution_def double_defs)
  from bad_solution_restarts_pair
         [of exampleControl 10 "(chrom 1 4, chrom 2 3)" scripted 0 4 True abandonedAfter
             "[chrom 1 10, chrom 1 8]" abandonedBefore "5516909543528858 / 2 ^ 50"] b t bad l
  have A: "finishPair scripted exampleControl 0 4 True 10 (chrom 1 4, chrom 2 3) abandonedAfter
       = Returned (storeChildren (chrom 1 4, chrom 2 3) abandonedAfter)
   \<and> child1It (storeChildren (chrom 1 4, chrom 2 3) abandonedAfter) = child1It abandonedBefore
   \<and> child2It (storeChildren (chrom 1 4, chrom 2 3) abandonedAfter) = child2It abandonedBefore
   \<and> badSolution exampleControl 10 (5516909543528858 / 2 ^ 50)"
    by simp
  from bad_solution_restarts_pair
         [of exampleControl 10 "(chrom 1 4, chrom 2 3)" scripted 0 4 True abandonedAfter
             "[chrom 1 10, chrom 1 8]" abandonedBefore "5742089524897382 / 2 ^ 50"] t
  have B: "\<not> badSolution exampleControl 10 (5742089524897382 / 2 ^ 50)"
    by simp
  from b bad t r49 r51 v w A B show ?thesis by blast
qed

text \<open>
  The claim as stated fails for a negative \<^verbatim>\<open>minParentFitness\<close>: with parents of fitness
  \<open>-10\<close> and \<open>-12\<close> and a threshold of 0.5, a first child of fitness \<open>-8\<close> is below
  \<open>minParentFitness * (1 - 0.5)\<close> (whichever parent's fitness is taken), yet the test of
  the source is false and both slot indices advance.
\<close>

theorem bad_solution_rule_counterexample:
  "badSolutionThreshold exampleControl = 1 / 2
   \<and> minParentFitnessOf (chrom 1 (- 10)) (chrom 1 (- 12)) = - 10
   \<and> (- 8 :: real) < - 10 * (1 - badSolutionThreshold exampleControl)
   \<and> (- 8 :: real) < - 12 * (1 - badSolutionThreshold exampleControl)
   \<and> \<not> badSolution exampleControl
           (minParentFitnessOf (chrom 1 (- 10)) (chrom 1 (- 12))) (fitness (chrom 1 (- 8)))
   \<and> child1It (resultState (finishPair scripted exampleControl 0 4 False
                   (minParentFitnessOf (chrom 1 (- 10)) (chrom 1 (- 12)))
                   (chrom 1 (- 8), chrom 2 (- 9)) abandonedAfter)) = 1
   \<and> child2It (resultState (finishPair scripted exampleControl 0 4 False
                   (minParentFitnessOf (chrom 1 (- 10)) (chrom 1 (- 12)))
                   (chrom 1 (- 8), chrom 2 (- 9)) abandonedAfter)) = 3"
proof -
  have t: "badSolutionThreshold exampleControl = 1 / 2"
    by (simp add: exampleControl_def)
  have m: "minParentFitnessOf (chrom 1 (- 10)) (chrom 1 (- 12)) = - 10"
    by (simp add: minParentFitnessOf_def chrom_def)
  have n: "\<not> badSolution exampleControl (- 10) (fitness (chrom 1 (- 8)))"
    by (simp add: badSolution_def double_defs exampleControl_def chrom_def)
  have f: "child1It (resultState (finishPair scripted exampleControl 0 4 False (- 10)
                   (chrom 1 (- 8), chrom 2 (- 9)) abandonedAfter)) = 1
         \<and> child2It (resultState (finishPair scripted exampleControl 0 4 False (- 10)
                   (chrom 1 (- 8), chrom 2 (- 9)) abandonedAfter)) = 3"
    by code_simp
  show ?thesis using t m n f by simp
qed

subsection \<open>The interrupt check\<close>

text \<open>
  Claim C4, as amended.  \<^verbatim>\<open>mate\<close> as the worker threads call it (\<^verbatim>\<open>checkUserInterrupt\<close>
  false) never checks for an interrupt and never ends with \<^verbatim>\<open>InterruptException\<close>.  In
  the invoking thread's call the check is made once at the end of every iteration of
  the loop that is not abandoned as a bad solution, and nowhere else in the iteration.
\<close>

theorem interrupt_check_after_each_finished_pair:
  "(runMating_mate E ctrl cur next n off s = Some r \<longrightarrow>
      (\<exists>st. r = Returned st \<and> noCheckBetween s (thread st)
            \<and> interruptChecks (thread st) = interruptChecks s))
   \<and> interruptChecks (thread (resultState
         (finishPair E ctrl rangeBeginIt rangeEndIt checkUserInterrupt m children st)))
       = (if checkUserInterrupt \<and> \<not> badSolution ctrl m (fitness (fst children))
          then Suc (interruptChecks (thread st)) else interruptChecks (thread st))
   \<and> (breed E ctrl cur st0 = Some (m, children, st) \<longrightarrow>
        interruptChecks (thread st) = interruptChecks (thread st0))"
proof (intro conjI impI)
  assume "runMating_mate E ctrl cur next n off s = Some r"
  then have "mate E ctrl cur next n off False s = Some r"
    by (simp add: runMating_mate_def)
  from mate_worker[OF this] obtain st where
    st: "r = Returned st" "noCheckBetween s (thread st)" by blast
  with noCheck_count[OF st(2)]
  show "\<exists>st. r = Returned st \<and> noCheckBetween s (thread st)
            \<and> interruptChecks (thread st) = interruptChecks s" by blast
next
  show "interruptChecks (thread (resultState
         (finishPair E ctrl rangeBeginIt rangeEndIt checkUserInterrupt m children st)))
       = (if checkUserInterrupt \<and> \<not> badSolution ctrl m (fitness (fst children))
          then Suc (interruptChecks (thread st)) else interruptChecks (thread st))"
    by (rule finishPair_checks)
next
  assume "breed E ctrl cur st0 = Some (m, children, st)"
  from breed_result[OF this] show "interruptChecks (thread st) = interruptChecks (thread st0)"
    by (simp add: noCheck_count)
qed

theorem interrupt_check_after_each_finished_pair_witness:
  "(\<exists>st. runMating_mate scripted exampleControl [chrom 1 10, chrom 1 8]
             [chrom 0 0, chrom 0 0, chrom 0 0, chrom 0 0] 4 0
             (script0 [0, 1, 1, 0] [(1, 2), (3, 0)] [11, 12, 9, 10]) = Some (Returned st)
          \<and> interruptChecks (thread st) = 0)
   \<and> breed scripted exampleControl [chrom 1 10, chrom 1 8] abandonedBefore
       = Some (10, (chrom 1 4, chrom 2 3), abandonedAfter)
   \<and> interruptChecks (thread abandonedAfter) = 0
   \<and> interruptChecks (thread (resultState
         (finishPair scripted exampleControl 0 4 True 10 (chrom 1 4, chrom 2 3) abandonedAfter))) = 0
   \<and> interruptChecks (thread (resultState
         (finishPair scripted exampleControl 0 4 True 3 (chrom 1 4, chrom 2 3) abandonedAfter))) = 1"
proof -
  let ?run = "runMating_mate scripted exampleControl [chrom 1 10, chrom 1 8]
             [chrom 0 0, chrom 0 0, chrom 0 0, chrom 0 0] 4 0
             (script0 [0, 1, 1, 0] [(1, 2), (3, 0)] [11, 12, 9, 10])"
  have "runMating_mate scripted exampleControl [chrom 1 10, chrom 1 8]
             [chrom 0 0, chrom 0 0, chrom 0 0, chrom 0 0] 4 0
             (script0 [0, 1, 1, 0] [(1, 2), (3, 0)] [11, 12, 9, 10]) \<noteq> None"
    by code_simp
  then obtain r where r: "?run = Some r" by blast
  have i: "interruptChecks (script0 [0, 1, 1, 0] [(1, 2), (3, 0)] [11, 12, 9, 10]) = 0"
    by (simp add: interruptChecks_def script0_def)
  have b: "breed scripted exampleControl [chrom 1 10, chrom 1 8] abandonedBefore
             = Some (10, (chrom 1 4, chrom 2 3), abandonedAfter)"
    by code_simp
  have i0: "interruptChecks (thread abandonedBefore) = 0"
    by (simp add: interruptChecks_def abandonedBefore_def exampleState_def script0_def)
  have bad: "badSolution exampleControl 10 (fitness (fst (chrom 1 4, chrom 2 3)))"
    by (simp add: badSolution_def double_defs exampleControl_def chrom_def)
  have good: "\<not> badSolution exampleControl 3 (fitness (fst (chrom 1 4, chrom 2 3)))"
    by (simp add: badSolution_def double_defs exampleControl_def chrom_def)
  from interrupt_check_after_each_finished_pair
         [of scripted exampleControl "[chrom 1 10, chrom 1 8]"
             "[chrom 0 0, chrom 0 0, chrom 0 0, chrom 0 0]" 4 0
             "script0 [0, 1, 1, 0] [(1, 2), (3, 0)] [11, 12, 9, 10]" r
             0 4 True 10 "(chrom 1 4, chrom 2 3)" abandonedAfter abandonedBefore]
       r i b i0 bad
  have A: "(\<exists>st. ?run = Some (Returned st) \<and> interruptChecks (thread st) = 0)"
    and B: "interruptChecks (thread abandonedAfter) = 0"
    and C: "interruptChecks (thread (resultState
         (finishPair scripted exampleControl 0 4 True 10 (chrom 1 4, chrom 2 3) abandonedAfter))) = 0"
    by auto
  from interrupt_check_after_each_finished_pair
         [of scripted exampleControl "[chrom 1 10, chrom 1 8]"
             "[chrom 0 0, chrom 0 0, chrom 0 0, chrom 0 0]" 4 0
             "script0 [0, 1, 1, 0] [(1, 2), (3, 0)] [11, 12, 9, 10]" r
             0 4 True 3 "(chrom 1 4, chrom 2 3)" abandonedAfter abandonedBefore]
       good B
  have D: "interruptChecks (thread (resultState
         (finishPair scripted exampleControl 0 4 True 3 (chrom 1 4, chrom 2 3) abandonedAfter))) = 1"
    by simp
  from A b B C D show ?thesis by blast
qed

text \<open>
  The claim as stated fails: in one call of \<^verbatim>\<open>mate\<close> by the invoking thread, that is in one
  generation, a share of four children that needs two iterations checks twice.
\<close>

theorem interrupt_check_once_per_generation_counterexample:
  "\<exists>st. run_mate scripted exampleControl [chrom 1 10, chrom 1 8]
            [chrom 0 0, chrom 0 0, chrom 0 0, chrom 0 0] 4 0
            (script0 [0, 1, 1, 0] [(1, 2), (3, 0)] [11, 12, 9, 10]) = Some (Returned st)
        \<and> interruptChecks (thread st) = 2"
proof -
  have "case run_mate scripted exampleControl [chrom 1 10, chrom 1 8]
            [chrom 0 0, chrom 0 0, chrom 0 0, chrom 0 0] 4 0
            (script0 [0, 1, 1, 0] [(1, 2), (3, 0)] [11, 12, 9, 10]) of
          Some (Returned st) \<Rightarrow> interruptChecks (thread st) = 2
        | _ \<Rightarrow> False"
    by code_simp
  then show ?thesis by (auto split: option.splits result.splits)
qed

section \<open>Properties of the spawning loop\<close>

subsection \<open>Auxiliary facts\<close>

lemma unat_add16:
  fixes a b :: "16 word"
  assumes "unat a + unat b < 65536"
  shows "unat (a + b) = unat a + unat b"
  using assms by (simp add: unat_add_lem[THEN iffD1])

lemma unat_of_nat16: "n < 65536 \<Longrightarrow> unat (of_nat n :: 16 word) = n"
  by (simp add: unat_of_nat)

lemma spawnedFrom_Suc:
  assumes "i < numThreads ctrl - 1"
  shows "spawnedFrom ctrl created i =
           (if created i then insert i (spawnedFrom ctrl created (Suc i))
            else spawnedFrom ctrl created (Suc i))"
  using assms by (auto simp: spawnedFrom_def Suc_le_eq le_less)

lemma finite_spawnedFrom: "finite (spawnedFrom ctrl created i)"
  by (simp add: spawnedFrom_def)

lemma workerRange_other:
  "j \<noteq> i \<Longrightarrow> workerRange (spawnThread created per i st) j = workerRange st j"
  by (simp add: workerRange_def spawnThread_def Let_def)

lemma spawnInv_step:
  assumes inv: "spawnInv ctrl created (Suc i) st"
    and i: "i < numThreads ctrl - 1"
    and P: "populationSize ctrl < 65536"
  shows "spawnInv ctrl created i
           (spawnThread created (of_nat (populationSize ctrl div numThreads ctrl)) i st)"
proof -
  let ?per = "populationSize ctrl div numThreads ctrl"
  let ?perw = "of_nat ?per :: 16 word"
  let ?st' = "spawnThread created ?perw i st"
  let ?r = "remainingChildren st"
  let ?n = "if ?r > 0 then ?perw + 1 else ?perw"
  from inv have r0: "0 \<le> ?r" and ri: "nat ?r \<le> Suc i"
    and acc: "unat (mainOffset st) + unat (numChildrenMainThread st) + Suc i * ?per + nat ?r
                = populationSize ctrl"
    and un: "(\<Union>j \<in> spawnedFrom ctrl created (Suc i). workerRange st j)
               = {0 ..< unat (mainOffset st)}"
    and dj: "\<forall>j \<in> spawnedFrom ctrl created (Suc i). \<forall>k \<in> spawnedFrom ctrl created (Suc i).
               j \<noteq> k \<longrightarrow> workerRange st j \<inter> workerRange st k = {}"
    and cd: "actuallySpawnedThreads st = card (spawnedFrom ctrl created (Suc i))"
    by (simp_all add: spawnInv_def)
  have per: "unat ?perw = ?per"
    using acc P by (intro unat_of_nat16) simp
  have n: "unat ?n = ?per + (if ?r > 0 then 1 else 0)"
  proof (cases "?r > 0")
    case True
    then have "unat ?perw + unat (1 :: 16 word) < 65536" using acc P per by simp
    from unat_add16[OF this] True per show ?thesis by simp
  next
    case False
    then show ?thesis using per by simp
  qed
  have nle: "unat ?n + nat (if ?r > 0 then ?r - 1 else ?r) = ?per + nat ?r"
    using n r0 by auto
  have notin: "i \<notin> spawnedFrom ctrl created (Suc i)"
    by (simp add: spawnedFrom_def)
  have other: "\<And>j. j \<in> spawnedFrom ctrl created (Suc i) \<Longrightarrow> workerRange ?st' j = workerRange st j"
    using notin by (metis workerRange_other)
  have below: "\<And>j. j \<in> spawnedFrom ctrl created (Suc i) \<Longrightarrow>
                 workerRange st j \<subseteq> {0 ..< unat (mainOffset st)}"
    using un by blast
  have rem': "remainingChildren ?st' = (if ?r > 0 then ?r - 1 else ?r)"
    by (simp add: spawnThread_def Let_def)
  have r0': "0 \<le> remainingChildren ?st'" and ri': "nat (remainingChildren ?st') \<le> i"
    using r0 ri i acc unfolding rem' by auto
  show ?thesis
  proof (cases "created i")
    case True
    have sf: "spawnedFrom ctrl created i = insert i (spawnedFrom ctrl created (Suc i))"
      using spawnedFrom_Suc[OF i, of created] True by simp
    have sum: "unat (mainOffset st) + unat ?n < 65536" using acc P n by auto
    have off': "unat (mainOffset ?st') = unat (mainOffset st) + unat ?n"
      using True unat_add16[OF sum] by (simp add: spawnThread_def Let_def)
    have main': "numChildrenMainThread ?st' = numChildrenMainThread st"
      using True by (simp add: spawnThread_def Let_def)
    have wi: "workerRange ?st' i = {unat (mainOffset st) ..< unat (mainOffset st) + unat ?n}"
      using True by (simp add: workerRange_def spawnThread_def Let_def)
    have acc': "unat (mainOffset ?st') + unat (numChildrenMainThread ?st') + i * ?per
                  + nat (remainingChildren ?st') = populationSize ctrl"
      using acc nle unfolding off' main' rem' by simp
    have un': "(\<Union>j \<in> spawnedFrom ctrl created i. workerRange ?st' j)
                 = {0 ..< unat (mainOffset ?st')}"
    proof -
      have "(\<Union>j \<in> spawnedFrom ctrl created i. workerRange ?st' j)
              = workerRange ?st' i \<union> (\<Union>j \<in> spawnedFrom ctrl created (Suc i). workerRange st j)"
        unfolding sf using other by auto
      also have "\<dots> = {unat (mainOffset st) ..< unat (mainOffset st) + unat ?n}
                        \<union> {0 ..< unat (mainOffset st)}"
        unfolding wi un ..
      also have "\<dots> = {0 ..< unat (mainOffset ?st')}"
        unfolding off' by auto
      finally show ?thesis .
    qed
    have dj': "\<forall>j \<in> spawnedFrom ctrl created i. \<forall>k \<in> spawnedFrom ctrl created i.
                 j \<noteq> k \<longrightarrow> workerRange ?st' j \<inter> workerRange ?st' k = {}"
    proof (intro ballI impI)
      fix j k
      assume j: "j \<in> spawnedFrom ctrl created i" and k: "k \<in> spawnedFrom ctrl created i"
        and jk: "j \<noteq> k"
      have new_old: "\<And>a. a \<in> spawnedFrom ctrl created (Suc i) \<Longrightarrow>
                       workerRange ?st' i \<inter> workerRange ?st' a = {}"
      proof -
        fix a assume a: "a \<in> spawnedFrom ctrl created (Suc i)"
        from below[OF a] other[OF a] show "workerRange ?st' i \<inter> workerRange ?st' a = {}"
          unfolding wi by auto
      qed
      show "workerRange ?st' j \<inter> workerRange ?st' k = {}"
      proof (cases "j = i")
        case True
        with k jk sf have "k \<in> spawnedFrom ctrl created (Suc i)" by auto
        from new_old[OF this] True show ?thesis by simp
      next
        case False
        with j sf have j': "j \<in> spawnedFrom ctrl created (Suc i)" by auto
        show ?thesis
        proof (cases "k = i")
          case True
          with new_old[OF j'] show ?thesis by auto
        next
          case False
          with k sf have k': "k \<in> spawnedFrom ctrl created (Suc i)" by auto
          from dj j' k' jk other[OF j'] other[OF k'] show ?thesis by simp
        qed
      qed
    qed
    have cd': "actuallySpawnedThreads ?st' = card (spawnedFrom ctrl created i)"
      using True cd notin finite_spawnedFrom[of ctrl created "Suc i"]
      unfolding sf by (simp add: spawnThread_def Let_def)
    from r0' ri' acc' un' dj' cd' show ?thesis unfolding spawnInv_def by blast
  next
    case False
    have sf: "spawnedFrom ctrl created i = spawnedFrom ctrl created (Suc i)"
      using spawnedFrom_Suc[OF i, of created] False by simp
    have sum: "unat (numChildrenMainThread st) + unat ?n < 65536" using acc P n by auto
    have main': "unat (numChildrenMainThread ?st') = unat (numChildrenMainThread st) + unat ?n"
      using False unat_add16[OF sum] by (simp add: spawnThread_def Let_def)
    have off': "mainOffset ?st' = mainOffset st"
      using False by (simp add: spawnThread_def Let_def)
    have acc': "unat (mainOffset ?st') + unat (numChildrenMainThread ?st') + i * ?per
                  + nat (remainingChildren ?st') = populationSize ctrl"
      using acc nle unfolding off' main' rem' by simp
    have un': "(\<Union>j \<in> spawnedFrom ctrl created i. workerRange ?st' j)
                 = {0 ..< unat (mainOffset ?st')}"
      unfolding sf off' using other un by auto
    have dj': "\<forall>j \<in> spawnedFrom ctrl created i. \<forall>k \<in> spawnedFrom ctrl created i.
                 j \<noteq> k \<longrightarrow> workerRange ?st' j \<inter> workerRange ?st' k = {}"
      unfolding sf using dj other by simp
    have cd': "actuallySpawnedThreads ?st' = card (spawnedFrom ctrl created i)"
      using False cd unfolding sf by (simp add: spawnThread_def Let_def)
    from r0' ri' acc' un' dj' cd' show ?thesis unfolding spawnInv_def by blast
  qed
qed

lemma spawnInv_loop:
  assumes "spawnInv ctrl created i st" and "i \<le> numThreads ctrl - 1"
    and "populationSize ctrl < 65536"
  shows "spawnInv ctrl created 0
           (spawnThreads created (of_nat (populationSize ctrl div numThreads ctrl)) i st)"
  using assms(1,2)
proof (induction i arbitrary: st)
  case 0
  then show ?case by simp
next
  case (Suc i)
  from Suc.prems have "i < numThreads ctrl - 1" by simp
  from spawnInv_step[OF Suc.prems(1) this assms(3)] Suc.IH Suc.prems(2)
  show ?case by simp
qed

lemma unstartedFrom_Suc:
  assumes "i < numThreads ctrl - 1"
  shows "unstartedFrom ctrl created i =
           (if created i then unstartedFrom ctrl created (Suc i)
            else insert i (unstartedFrom ctrl created (Suc i)))"
  using assms by (auto simp: unstartedFrom_def Suc_le_eq le_less)

lemma spawnShare_step:
  assumes inv: "spawnInv ctrl created (Suc i) st"
    and sh: "unat (numChildrenMainThread st) = populationSize ctrl div numThreads ctrl
               + (\<Sum>j \<in> unstartedFrom ctrl created (Suc i). unat (numChildren (threadArgs st j)))"
    and i: "i < numThreads ctrl - 1"
    and P: "populationSize ctrl < 65536"
  shows "unat (numChildrenMainThread
                 (spawnThread created (of_nat (populationSize ctrl div numThreads ctrl)) i st))
           = populationSize ctrl div numThreads ctrl
               + (\<Sum>j \<in> unstartedFrom ctrl created i.
                    unat (numChildren (threadArgs
                      (spawnThread created (of_nat (populationSize ctrl div numThreads ctrl)) i st) j)))"
proof -
  let ?per = "populationSize ctrl div numThreads ctrl"
  let ?perw = "of_nat ?per :: 16 word"
  let ?st' = "spawnThread created ?perw i st"
  let ?r = "remainingChildren st"
  let ?n = "if ?r > 0 then ?perw + 1 else ?perw"
  from inv have r0: "0 \<le> ?r"
    and acc: "unat (mainOffset st) + unat (numChildrenMainThread st) + Suc i * ?per + nat ?r
                = populationSize ctrl"
    by (simp_all add: spawnInv_def)
  have per: "unat ?perw = ?per"
    using acc P by (intro unat_of_nat16) simp
  have n: "unat ?n = ?per + (if ?r > 0 then 1 else 0)"
  proof (cases "?r > 0")
    case True
    then have "unat ?perw + unat (1 :: 16 word) < 65536" using acc P per by simp
    from unat_add16[OF this] True per show ?thesis by simp
  next
    case False
    then show ?thesis using per by simp
  qed
  have notin: "i \<notin> unstartedFrom ctrl created (Suc i)"
    by (simp add: unstartedFrom_def)
  have fin: "finite (unstartedFrom ctrl created (Suc i))"
    by (simp add: unstartedFrom_def)
  have other: "\<And>j. j \<in> unstartedFrom ctrl created (Suc i) \<Longrightarrow>
                 numChildren (threadArgs ?st' j) = numChildren (threadArgs st j)"
    using notin by (auto simp: spawnThread_def Let_def)
  have here: "numChildren (threadArgs ?st' i) = ?n"
    by (simp add: spawnThread_def Let_def)
  have same: "(\<Sum>j \<in> unstartedFrom ctrl created (Suc i). unat (numChildren (threadArgs ?st' j)))
               = (\<Sum>j \<in> unstartedFrom ctrl created (Suc i). unat (numChildren (threadArgs st j)))"
    using other by simp
  show ?thesis
  proof (cases "created i")
    case True
    have "numChildrenMainThread ?st' = numChildrenMainThread st"
      using True by (simp add: spawnThread_def Let_def)
    with True sh same unstartedFrom_Suc[OF i, of created] show ?thesis by simp
  next
    case False
    have sum: "unat (numChildrenMainThread st) + unat ?n < 65536" using acc P n by auto
    have main': "unat (numChildrenMainThread ?st') = unat (numChildrenMainThread st) + unat ?n"
      using False unat_add16[OF sum] by (simp add: spawnThread_def Let_def)
    have "(\<Sum>j \<in> unstartedFrom ctrl created i. unat (numChildren (threadArgs ?st' j)))
            = unat ?n + (\<Sum>j \<in> unstartedFrom ctrl created (Suc i). unat (numChildren (threadArgs st j)))"
      using False unstartedFrom_Suc[OF i, of created] notin fin here same by simp
    with main' sh show ?thesis by simp
  qed
qed

lemma spawnShare_loop:
  assumes "spawnInv ctrl created i st"
    and "unat (numChildrenMainThread st) = populationSize ctrl div numThreads ctrl
               + (\<Sum>j \<in> unstartedFrom ctrl created i. unat (numChildren (threadArgs st j)))"
    and "i \<le> numThreads ctrl - 1"
    and "populationSize ctrl < 65536"
  shows "unat (numChildrenMainThread
                 (spawnThreads created (of_nat (populationSize ctrl div numThreads ctrl)) i st))
           = populationSize ctrl div numThreads ctrl
               + (\<Sum>j \<in> unstartedFrom ctrl created 0.
                    unat (numChildren (threadArgs
                      (spawnThreads created (of_nat (populationSize ctrl div numThreads ctrl)) i st) j)))"
  using assms(1,2,3)
proof (induction i arbitrary: st)
  case 0
  then show ?case by simp
next
  case (Suc i)
  from Suc.prems have i: "i < numThreads ctrl - 1" by simp
  from spawnInv_step[OF Suc.prems(1) i assms(4)] spawnShare_step[OF Suc.prems(1,2) i assms(4)]
    Suc.IH i
  show ?case by simp
qed

lemma spawnInv_initial:
  assumes "1 \<le> numThreads ctrl" and "populationSize ctrl < 65536"
  shows "spawnInv ctrl created (numThreads ctrl - 1)
           (sync.extend constructed
              \<lparr>remainingChildren = int (populationSize ctrl mod numThreads ctrl),
               numChildrenMainThread = numChildrenPerThread ctrl,
               mainOffset = 0,
               threadArgs = (\<lambda>_. \<lparr>numChildren = 0, offset = 0\<rparr>)\<rparr>)"
proof -
  let ?T = "numThreads ctrl" and ?P = "populationSize ctrl"
  have "?P div ?T \<le> ?P" by (rule div_le_dividend)
  with assms(2) have "?P div ?T < 65536" by linarith
  then have per: "unat (numChildrenPerThread ctrl) = ?P div ?T"
    unfolding numChildrenPerThread_def by (rule unat_of_nat16)
  have "?P mod ?T < ?T" using assms(1) by simp
  then have r: "?P mod ?T \<le> ?T - 1" by simp
  have "?P div ?T + (?T - 1) * (?P div ?T) + ?P mod ?T = ?T * (?P div ?T) + ?P mod ?T"
    using assms(1) by (cases ?T) simp_all
  then have acc: "?P div ?T + (?T - 1) * (?P div ?T) + ?P mod ?T = ?P" by simp
  have e: "spawnedFrom ctrl created (?T - 1) = {}"
    by (auto simp: spawnedFrom_def)
  show ?thesis
    unfolding spawnInv_def e
    using r acc per by (simp add: sync.extend_def sync.defs constructed_def)
qed

lemma createThreads_inv:
  assumes T: "2 \<le> numThreads ctrl" "numThreads ctrl \<le> 65536"
    and P: "populationSize ctrl < 65536"
  shows "spawnInv ctrl created 0 (createThreads ctrl created constructed)"
    and "unat (numChildrenMainThread (createThreads ctrl created constructed))
           = populationSize ctrl div numThreads ctrl
               + (\<Sum>j \<in> unstartedFrom ctrl created 0.
                    unat (numChildren (threadArgs (createThreads ctrl created constructed) j)))"
    and "unat (maxThreadsToSpawn ctrl) = numThreads ctrl - 1"
proof -
  have m: "unat (maxThreadsToSpawn ctrl) = numThreads ctrl - 1"
    unfolding maxThreadsToSpawn_def using T by (intro unat_of_nat16) simp
  then show "unat (maxThreadsToSpawn ctrl) = numThreads ctrl - 1" .
  have one: "1 \<le> numThreads ctrl" using T by simp
  note i0 = spawnInv_initial[OF one P, of created]
  have pw: "numChildrenPerThread ctrl = of_nat (populationSize ctrl div numThreads ctrl)"
    by (simp add: numChildrenPerThread_def)
  from spawnInv_loop[OF i0 le_refl P]
  show "spawnInv ctrl created 0 (createThreads ctrl created constructed)"
    by (simp add: createThreads_def m pw)
  have "populationSize ctrl div numThreads ctrl \<le> populationSize ctrl" by (rule div_le_dividend)
  with P have "populationSize ctrl div numThreads ctrl < 65536" by linarith
  then have per: "unat (numChildrenPerThread ctrl) = populationSize ctrl div numThreads ctrl"
    unfolding numChildrenPerThread_def by (rule unat_of_nat16)
  have e: "unstartedFrom ctrl created (numThreads ctrl - 1) = {}"
    by (auto simp: unstartedFrom_def)
  have s0: "unat (numChildrenMainThread (sync.extend constructed
              \<lparr>remainingChildren = int (populationSize ctrl mod numThreads ctrl),
               numChildrenMainThread = numChildrenPerThread ctrl,
               mainOffset = 0,
               threadArgs = (\<lambda>_. \<lparr>numChildren = 0, offset = 0\<rparr>)\<rparr>))
        = populationSize ctrl div numThreads ctrl
            + (\<Sum>j \<in> unstartedFrom ctrl created (numThreads ctrl - 1).
                 unat (numChildren (threadArgs (sync.extend constructed
              \<lparr>remainingChildren = int (populationSize ctrl mod numThreads ctrl),
               numChildrenMainThread = numChildrenPerThread ctrl,
               mainOffset = 0,
               threadArgs = (\<lambda>_. \<lparr>numChildren = 0, offset = 0\<rparr>)\<rparr>) j)))"
    unfolding e using per by (simp add: sync.extend_def sync.defs constructed_def)
  from spawnShare_loop[OF i0 s0 le_refl P]
  show "unat (numChildrenMainThread (createThreads ctrl created constructed))
           = populationSize ctrl div numThreads ctrl
               + (\<Sum>j \<in> unstartedFrom ctrl created 0.
                    unat (numChildren (threadArgs (createThreads ctrl created constructed) j)))"
    by (simp add: createThreads_def m pw)
qed

subsection \<open>The ranges of the threads\<close>

text \<open>
  The shares under failed creations.  For at least two threads and a population size
  and thread count that fit the 16-bit variables of \<^verbatim>\<open>run\<close>, and for every pattern of
  \<^verbatim>\<open>pthread_create\<close> failures: the ranges of the spawned workers are pairwise disjoint, none
  meets the range of the invoking thread, and together they are exactly the slots
  \<open>0 ..< populationSize\<close>; the invoking thread's share is its own share plus the shares
  of the workers that were not started; the count of spawned threads is the number of
  successful creations; and the warning is given exactly when some creation failed.
\<close>

theorem thread_ranges_partition_population:
  assumes "2 \<le> numThreads ctrl" and "numThreads ctrl \<le> 65536"
    and "populationSize ctrl < 65536"
  shows "(\<forall>i \<in> spawnedWorkers ctrl created. \<forall>j \<in> spawnedWorkers ctrl created.
            i \<noteq> j \<longrightarrow>
              workerRange (createThreads ctrl created constructed) i
                \<inter> workerRange (createThreads ctrl created constructed) j = {})
       \<and> (\<forall>i \<in> spawnedWorkers ctrl created.
            workerRange (createThreads ctrl created constructed) i
              \<inter> mainRange (createThreads ctrl created constructed) = {})
       \<and> (\<Union>i \<in> spawnedWorkers ctrl created.
            workerRange (createThreads ctrl created constructed) i)
           \<union> mainRange (createThreads ctrl created constructed)
           = {0 ..< populationSize ctrl}
       \<and> unat (numChildrenMainThread (createThreads ctrl created constructed))
           = populationSize ctrl div numThreads ctrl
               + (\<Sum>j \<in> unstartedFrom ctrl created 0.
                    unat (numChildren
                      (threadArgs (createThreads ctrl created constructed) j)))
       \<and> actuallySpawnedThreads (createThreads ctrl created constructed)
           = card (spawnedWorkers ctrl created)
       \<and> spawnWarning ctrl (createThreads ctrl created constructed)
           = (\<exists>i < numThreads ctrl - 1. \<not> created i)"
proof -
  let ?st = "createThreads ctrl created constructed"
  let ?W = "spawnedWorkers ctrl created"
  note f = createThreads_inv(1)[OF assms, of created]
    createThreads_inv(2)[OF assms, of created] createThreads_inv(3)[OF assms]
  have W: "?W = spawnedFrom ctrl created 0"
    by (simp add: spawnedWorkers_def spawnedFrom_def f(3))
  have un: "(\<Union>j \<in> ?W. workerRange ?st j) = {0 ..< unat (mainOffset ?st)}"
    using f(1) by (simp add: spawnInv_def W)
  have dj: "\<forall>j \<in> ?W. \<forall>k \<in> ?W. j \<noteq> k \<longrightarrow> workerRange ?st j \<inter> workerRange ?st k = {}"
    using f(1) by (simp add: spawnInv_def W)
  have cd: "actuallySpawnedThreads ?st = card ?W"
    using f(1) by (simp add: spawnInv_def W)
  have tot: "unat (mainOffset ?st) + unat (numChildrenMainThread ?st) = populationSize ctrl"
    using f(1) unfolding spawnInv_def by (elim conjE) linarith
  have mr: "mainRange ?st = {unat (mainOffset ?st) ..< populationSize ctrl}"
    by (simp add: mainRange_def tot)
  have A: "\<forall>i \<in> ?W. workerRange ?st i \<inter> mainRange ?st = {}"
  proof
    fix i assume "i \<in> ?W"
    then have "workerRange ?st i \<subseteq> (\<Union>j \<in> ?W. workerRange ?st j)" by (rule UN_upper)
    then have "workerRange ?st i \<subseteq> {0 ..< unat (mainOffset ?st)}" unfolding un .
    then show "workerRange ?st i \<inter> mainRange ?st = {}" unfolding mr by auto
  qed
  have B: "(\<Union>i \<in> ?W. workerRange ?st i) \<union> mainRange ?st = {0 ..< populationSize ctrl}"
    unfolding un mr using tot by auto
  have sub: "?W \<subseteq> {..< numThreads ctrl - 1}"
    by (auto simp: spawnedWorkers_def f(3))
  have C: "spawnWarning ctrl ?st = (\<exists>i < numThreads ctrl - 1. \<not> created i)"
  proof
    assume "spawnWarning ctrl ?st"
    then have "card ?W < numThreads ctrl - 1"
      by (simp add: spawnWarning_def cd f(3))
    have "\<not> {..< numThreads ctrl - 1} \<subseteq> ?W"
    proof
      assume "{..< numThreads ctrl - 1} \<subseteq> ?W"
      with sub have "?W = {..< numThreads ctrl - 1}" by (rule subset_antisym)
      then have "card ?W = numThreads ctrl - 1" by simp
      with \<open>card ?W < numThreads ctrl - 1\<close> show False by simp
    qed
    then obtain i where "i \<in> {..< numThreads ctrl - 1}" "i \<notin> ?W"
      unfolding subset_iff by (elim exE[OF iffD1[OF not_all]]) (simp only: not_imp, elim conjE)
    then have "i < numThreads ctrl - 1" "i \<notin> ?W" by simp_all
    then show "\<exists>i < numThreads ctrl - 1. \<not> created i"
      by (auto simp: spawnedWorkers_def f(3))
  next
    assume "\<exists>i < numThreads ctrl - 1. \<not> created i"
    then obtain i where "i < numThreads ctrl - 1" "i \<notin> ?W"
      by (auto simp: spawnedWorkers_def)
    with sub have "?W \<subset> {..< numThreads ctrl - 1}" by blast
    then have "card ?W < card {..< numThreads ctrl - 1}"
      by (intro psubset_card_mono) simp_all
    then show "spawnWarning ctrl ?st"
      by (simp add: spawnWarning_def cd f(3))
  qed
  show ?thesis
    by (intro conjI) (rule dj, rule A, rule B, rule f(2)[unfolded unstartedFrom_def, folded unstartedFrom_def], rule cd, rule C)
qed

theorem thread_ranges_partition_population_witness:
  "2 \<le> numThreads exampleSpawn \<and> numThreads exampleSpawn \<le> 65536
   \<and> populationSize exampleSpawn < 65536
   \<and> \<not> exampleCreate 1
   \<and> offset (threadArgs (createThreads exampleSpawn exampleCreate constructed) 2) = 0
   \<and> numChildren (threadArgs (createThreads exampleSpawn exampleCreate constructed) 2) = 3
   \<and> offset (threadArgs (createThreads exampleSpawn exampleCreate constructed) 0) = 3
   \<and> numChildren (threadArgs (createThreads exampleSpawn exampleCreate constructed) 0) = 2
   \<and> numChildren (threadArgs (createThreads exampleSpawn exampleCreate constructed) 1) = 3
   \<and> mainOffset (createThreads exampleSpawn exampleCreate constructed) = 5
   \<and> numChildrenMainThread (createThreads exampleSpawn exampleCreate constructed) = 5
   \<and> actuallySpawnedThreads (createThreads exampleSpawn exampleCreate constructed) = 2
   \<and> (\<Union>i \<in> spawnedWorkers exampleSpawn exampleCreate.
            workerRange (createThreads exampleSpawn exampleCreate constructed) i)
           \<union> mainRange (createThreads exampleSpawn exampleCreate constructed)
           = {0 ..< populationSize exampleSpawn}
   \<and> spawnWarning exampleSpawn (createThreads exampleSpawn exampleCreate constructed)"
proof -
  have h: "2 \<le> numThreads exampleSpawn" "numThreads exampleSpawn \<le> 65536"
    "populationSize exampleSpawn < 65536"
    by (simp_all add: exampleSpawn_def)
  have c: "\<not> exampleCreate 1" by (simp add: exampleCreate_def)
  have e: "offset (threadArgs (createThreads exampleSpawn exampleCreate constructed) 2) = 0"
    "numChildren (threadArgs (createThreads exampleSpawn exampleCreate constructed) 2) = 3"
    "offset (threadArgs (createThreads exampleSpawn exampleCreate constructed) 0) = 3"
    "numChildren (threadArgs (createThreads exampleSpawn exampleCreate constructed) 0) = 2"
    "numChildren (threadArgs (createThreads exampleSpawn exampleCreate constructed) 1) = 3"
    "mainOffset (createThreads exampleSpawn exampleCreate constructed) = 5"
    "numChildrenMainThread (createThreads exampleSpawn exampleCreate constructed) = 5"
    "actuallySpawnedThreads (createThreads exampleSpawn exampleCreate constructed) = 2"
    by code_simp+
  have w: "\<exists>i < numThreads exampleSpawn - 1. \<not> exampleCreate i"
    using c by (auto simp: exampleSpawn_def intro: exI[of _ 1])
  from thread_ranges_partition_population[OF h, of exampleCreate] h c e w
  show ?thesis by blast
qed

section \<open>Properties of the generation barrier\<close>

subsection \<open>Auxiliary facts: the invariant is kept by every move\<close>

lemma finite_done: "finite {w. w < (n::nat) \<and> d w = (G::nat)}"
proof (rule finite_subset)
  show "{w. w < n \<and> d w = G} \<subseteq> {..<n}" by auto
  show "finite {..<n}" by simp
qed

lemma card_done_le: "card {w. w < (n::nat) \<and> d w = (G::nat)} \<le> n"
proof -
  have "card {w. w < n \<and> d w = G} \<le> card {..<n}"
    by (rule card_mono) auto
  then show ?thesis by simp
qed

lemma card_done_full:
  assumes "card {w. w < (n::nat) \<and> d w = (G::nat)} = n" and "v < n"
  shows "d v = G"
proof -
  have "{w. w < n \<and> d w = G} \<subseteq> {..<n}" by auto
  moreover have "card {w. w < n \<and> d w = G} = card {..<n}" using assms(1) by simp
  ultimately have "{w. w < n \<and> d w = G} = {..<n}"
    by (intro card_subset_eq) simp_all
  with assms(2) show ?thesis by blast
qed

lemma card_done_upd:
  assumes "w < (n::nat)" and "d w \<noteq> (G::nat)"
  shows "card {v. v < n \<and> (d(w := G)) v = G} = Suc (card {v. v < n \<and> d v = G})"
proof -
  have "{v. v < n \<and> (d(w := G)) v = G} = insert w {v. v < n \<and> d v = G}"
    using assms by auto
  moreover have "w \<notin> {v. v < n \<and> d v = G}" using assms by simp
  moreover note finite_done[of n d G]
  ultimately show ?thesis by (metis card_insert_disjoint)
qed

lemma card_done_none:
  assumes "\<And>w. w < (n::nat) \<Longrightarrow> d w \<noteq> (G::nat)"
  shows "card {w. w < n \<and> d w = G} = 0"
proof -
  have "{w. w < n \<and> d w = G} = {}" using assms by auto
  then show ?thesis by (metis card.empty)
qed

lemma arrive_fields:
  "actuallySpawnedThreads (arrive sh) = actuallySpawnedThreads sh"
  "killThreads (arrive sh) = killThreads sh"
  by (simp_all add: arrive_def)

lemma arrive_last:
  assumes "actuallySpawnedThreads sh < numThreadsFinishedMating sh + 1"
  shows "\<not> startMating (arrive sh)" "allThreadsFinishedMating (arrive sh)"
    "numThreadsFinishedMating (arrive sh) = 0"
  using assms by (simp_all add: arrive_def)

lemma arrive_not_last:
  assumes "\<not> actuallySpawnedThreads sh < numThreadsFinishedMating sh + 1"
  shows "startMating (arrive sh) = startMating sh" "\<not> allThreadsFinishedMating (arrive sh)"
    "numThreadsFinishedMating (arrive sh) = numThreadsFinishedMating sh + 1"
  using assms by (simp_all add: arrive_def)

lemma barrierInvI:
  assumes "actuallySpawnedThreads (shared s) = n"
    and "mainDone s \<le> mainBegun s" and "mainBegun s \<le> Suc (mainDone s)"
    and "(mainAt s = MainMating) = (mainBegun s = Suc (mainDone s))"
    and "\<And>w. w < n \<Longrightarrow>
           workerDone s w \<le> workerBegun s w \<and> workerBegun s w \<le> mainBegun s \<and>
           mainBegun s \<le> Suc (workerDone s w) \<and>
           ((workerAt s w = WorkerMating) = (workerBegun s w = Suc (workerDone s w)))"
    and "\<not> startMating (shared s) \<Longrightarrow>
         numThreadsFinishedMating (shared s) = 0 \<and> \<not> killThreads (shared s) \<and>
         mainDone s = mainBegun s \<and> (\<forall>w < n. workerDone s w = mainBegun s) \<and>
         (mainAt s = BetweenGenerations \<or> mainAt s = MainWaitingForAll)"
    and "startMating (shared s) \<Longrightarrow> \<not> killThreads (shared s) \<Longrightarrow>
         (mainAt s = MainMating \<or> mainAt s = MainWaitingForAll) \<and>
         0 < mainBegun s \<and>
         numThreadsFinishedMating (shared s)
           = card (finishedNow s) + (if mainDone s = mainBegun s then 1 else 0) \<and>
         numThreadsFinishedMating (shared s) \<le> n \<and>
         (0 < numThreadsFinishedMating (shared s) \<longrightarrow>
            \<not> allThreadsFinishedMating (shared s)) \<and>
         (\<forall>w < n. workerDone s w = mainBegun s \<longrightarrow> workerAt s w = WorkerWaitingForAll)"
    and "killThreads (shared s) \<Longrightarrow>
         startMating (shared s) \<and> mainAt s = MainJoining \<and>
         mainDone s = mainBegun s \<and> (\<forall>w < n. workerDone s w = mainBegun s)"
  shows "barrierInv n s"
  unfolding barrierInv_def using assms by blast

lemma inv_n: "barrierInv n s \<Longrightarrow> actuallySpawnedThreads (shared s) = n"
  unfolding barrierInv_def by blast

lemma inv_main:
  "barrierInv n s \<Longrightarrow> mainDone s \<le> mainBegun s \<and> mainBegun s \<le> Suc (mainDone s) \<and>
     ((mainAt s = MainMating) = (mainBegun s = Suc (mainDone s)))"
  unfolding barrierInv_def by blast

lemma inv_worker:
  "barrierInv n s \<Longrightarrow> w < n \<Longrightarrow>
     workerDone s w \<le> workerBegun s w \<and> workerBegun s w \<le> mainBegun s \<and>
     mainBegun s \<le> Suc (workerDone s w) \<and>
     ((workerAt s w = WorkerMating) = (workerBegun s w = Suc (workerDone s w)))"
  unfolding barrierInv_def by blast

lemma inv_closed:
  "barrierInv n s \<Longrightarrow> \<not> startMating (shared s) \<Longrightarrow>
         numThreadsFinishedMating (shared s) = 0 \<and> \<not> killThreads (shared s) \<and>
         mainDone s = mainBegun s \<and> (\<forall>w < n. workerDone s w = mainBegun s) \<and>
         (mainAt s = BetweenGenerations \<or> mainAt s = MainWaitingForAll)"
  unfolding barrierInv_def by blast

lemma inv_open:
  "barrierInv n s \<Longrightarrow> startMating (shared s) \<Longrightarrow> \<not> killThreads (shared s) \<Longrightarrow>
         (mainAt s = MainMating \<or> mainAt s = MainWaitingForAll) \<and>
         0 < mainBegun s \<and>
         numThreadsFinishedMating (shared s)
           = card (finishedNow s) + (if mainDone s = mainBegun s then 1 else 0) \<and>
         numThreadsFinishedMating (shared s) \<le> n \<and>
         (0 < numThreadsFinishedMating (shared s) \<longrightarrow>
            \<not> allThreadsFinishedMating (shared s)) \<and>
         (\<forall>w < n. workerDone s w = mainBegun s \<longrightarrow> workerAt s w = WorkerWaitingForAll)"
  unfolding barrierInv_def by blast

lemma inv_killed:
  "barrierInv n s \<Longrightarrow> killThreads (shared s) \<Longrightarrow>
         startMating (shared s) \<and> mainAt s = MainJoining \<and>
         mainDone s = mainBegun s \<and> (\<forall>w < n. workerDone s w = mainBegun s)"
  unfolding barrierInv_def by blast

lemma inv_spawned: "barrierInv n (spawned n)"
  by (rule barrierInvI) (simp_all add: spawned_def constructed_def)

text \<open>When the main thread is between two generations, the barrier is closed.\<close>

lemma between_closed:
  assumes "barrierInv n s" and "mainAt s = BetweenGenerations"
  shows "\<not> startMating (shared s)"
proof
  assume st: "startMating (shared s)"
  show False
  proof (cases "killThreads (shared s)")
    case True
    from inv_killed[OF assms(1) True] assms(2) show False by simp
  next
    case False
    from inv_open[OF assms(1) st False] assms(2) show False by simp
  qed
qed

lemma inv_StartGeneration:
  assumes inv: "barrierInv n s" and f: "fire s StartGeneration = Some s'"
  shows "barrierInv n s'"
proof -
  from f have at: "mainAt s = BetweenGenerations"
    and s': "s' = s\<lparr>shared := (shared s)\<lparr>startMating := True\<rparr>,
                   mainAt := MainMating, mainBegun := mainBegun s + 1\<rparr>"
    by (auto split: if_splits)
  note c = inv_closed[OF inv between_closed[OF inv at]]
  have none: "card (finishedNow s') = 0"
    unfolding finishedNow_def
    by (rule card_done_none) (use c inv_n[OF inv] in \<open>simp add: s'\<close>)
  show ?thesis
  proof (rule barrierInvI)
    show "actuallySpawnedThreads (shared s') = n" using inv_n[OF inv] by (simp add: s')
    show "mainDone s' \<le> mainBegun s'" using c by (simp add: s')
    show "mainBegun s' \<le> Suc (mainDone s')" using c by (simp add: s')
    show "(mainAt s' = MainMating) = (mainBegun s' = Suc (mainDone s'))"
      using c by (simp add: s')
  next
    fix w assume w: "w < n"
    from inv_worker[OF inv w] c w
    show "workerDone s' w \<le> workerBegun s' w \<and> workerBegun s' w \<le> mainBegun s' \<and>
           mainBegun s' \<le> Suc (workerDone s' w) \<and>
           ((workerAt s' w = WorkerMating) = (workerBegun s' w = Suc (workerDone s' w)))"
      by (simp add: s')
  next
    assume "\<not> startMating (shared s')"
    then show "numThreadsFinishedMating (shared s') = 0 \<and> \<not> killThreads (shared s') \<and>
         mainDone s' = mainBegun s' \<and> (\<forall>w < n. workerDone s' w = mainBegun s') \<and>
         (mainAt s' = BetweenGenerations \<or> mainAt s' = MainWaitingForAll)"
      by (simp add: s')
  next
    assume "startMating (shared s')" "\<not> killThreads (shared s')"
    show "(mainAt s' = MainMating \<or> mainAt s' = MainWaitingForAll) \<and>
         0 < mainBegun s' \<and>
         numThreadsFinishedMating (shared s')
           = card (finishedNow s') + (if mainDone s' = mainBegun s' then 1 else 0) \<and>
         numThreadsFinishedMating (shared s') \<le> n \<and>
         (0 < numThreadsFinishedMating (shared s') \<longrightarrow>
            \<not> allThreadsFinishedMating (shared s')) \<and>
         (\<forall>w < n. workerDone s' w = mainBegun s' \<longrightarrow> workerAt s' w = WorkerWaitingForAll)"
      unfolding none using c by (simp add: s')
  next
    assume "killThreads (shared s')"
    with c show "startMating (shared s') \<and> mainAt s' = MainJoining \<and>
         mainDone s' = mainBegun s' \<and> (\<forall>w < n. workerDone s' w = mainBegun s')"
      by (simp add: s')
  qed
qed

lemma phase_cases:
  assumes "barrierInv n s"
  obtains (closed) "\<not> startMating (shared s)" "\<not> killThreads (shared s)"
  | (opened) "startMating (shared s)" "\<not> killThreads (shared s)"
  | (killed) "startMating (shared s)" "killThreads (shared s)"
  using inv_closed[OF assms] inv_killed[OF assms] by blast

text \<open>A thread that mates is in an open generation which it has not finished.\<close>

lemma main_mating_open:
  assumes inv: "barrierInv n s" and at: "mainAt s = MainMating"
  shows "startMating (shared s)" "\<not> killThreads (shared s)" "mainBegun s = Suc (mainDone s)"
proof -
  from inv_main[OF inv] at show g: "mainBegun s = Suc (mainDone s)" by simp
  show "startMating (shared s)" using inv_closed[OF inv] g by auto
  show "\<not> killThreads (shared s)" using inv_killed[OF inv] g by auto
qed

lemma worker_mating_open:
  assumes inv: "barrierInv n s" and w: "w < n" and at: "workerAt s w = WorkerMating"
  shows "startMating (shared s)" "\<not> killThreads (shared s)" "mainBegun s = Suc (workerDone s w)"
    "workerBegun s w = mainBegun s"
proof -
  from inv_worker[OF inv w] at show g: "mainBegun s = Suc (workerDone s w)"
    and "workerBegun s w = mainBegun s" by auto
  show "startMating (shared s)"
  proof (rule ccontr)
    assume "\<not> startMating (shared s)"
    from inv_closed[OF inv this] w have "workerDone s w = mainBegun s" by blast
    with g show False by simp
  qed
  show "\<not> killThreads (shared s)"
  proof
    assume "killThreads (shared s)"
    from inv_killed[OF inv this] w have "workerDone s w = mainBegun s" by blast
    with g show False by simp
  qed
qed

lemma inv_MainFinishes:
  assumes inv: "barrierInv n s" and f: "fire s MainFinishes = Some s'"
  shows "barrierInv n s'"
proof -
  from f have at: "mainAt s = MainMating"
    and s': "s' = s\<lparr>shared := arrive (shared s),
                   mainAt := (if allThreadsFinishedMating (arrive (shared s))
                              then BetweenGenerations else MainWaitingForAll),
                   mainDone := mainDone s + 1\<rparr>"
    by (auto split: if_splits)
  note m = main_mating_open[OF inv at]
  note n = inv_n[OF inv]
  note o = inv_open[OF inv m(1,2)]
  have cnt: "numThreadsFinishedMating (shared s) = card (finishedNow s)"
    using o m(3) by simp
  have fn: "finishedNow s' = finishedNow s"
    by (simp add: finishedNow_def s' arrive_fields)
  have basics: "actuallySpawnedThreads (shared s') = n" "mainDone s' \<le> mainBegun s'"
    "mainBegun s' \<le> Suc (mainDone s')"
    "(mainAt s' = MainMating) = (mainBegun s' = Suc (mainDone s'))"
    "\<not> killThreads (shared s')"
    using n m by (simp_all add: s' arrive_fields)
  have workers: "\<And>w. w < n \<Longrightarrow>
           workerDone s' w \<le> workerBegun s' w \<and> workerBegun s' w \<le> mainBegun s' \<and>
           mainBegun s' \<le> Suc (workerDone s' w) \<and>
           ((workerAt s' w = WorkerMating) = (workerBegun s' w = Suc (workerDone s' w)))"
    using inv_worker[OF inv] by (simp add: s')
  show ?thesis
  proof (cases "actuallySpawnedThreads (shared s) < numThreadsFinishedMating (shared s) + 1")
    case True
    note a = arrive_last[OF True]
    from True o n have "card (finishedNow s) = n" unfolding cnt by simp
    then have all: "\<And>v. v < n \<Longrightarrow> workerDone s v = mainBegun s"
      unfolding finishedNow_def n by (rule card_done_full)
    show ?thesis
    proof (rule barrierInvI)
      show "\<not> startMating (shared s') \<Longrightarrow>
         numThreadsFinishedMating (shared s') = 0 \<and> \<not> killThreads (shared s') \<and>
         mainDone s' = mainBegun s' \<and> (\<forall>w < n. workerDone s' w = mainBegun s') \<and>
         (mainAt s' = BetweenGenerations \<or> mainAt s' = MainWaitingForAll)"
        using a m all by (simp add: s' arrive_fields)
      show "startMating (shared s') \<Longrightarrow> \<not> killThreads (shared s') \<Longrightarrow>
         (mainAt s' = MainMating \<or> mainAt s' = MainWaitingForAll) \<and>
         0 < mainBegun s' \<and>
         numThreadsFinishedMating (shared s')
           = card (finishedNow s') + (if mainDone s' = mainBegun s' then 1 else 0) \<and>
         numThreadsFinishedMating (shared s') \<le> n \<and>
         (0 < numThreadsFinishedMating (shared s') \<longrightarrow>
            \<not> allThreadsFinishedMating (shared s')) \<and>
         (\<forall>w < n. workerDone s' w = mainBegun s' \<longrightarrow> workerAt s' w = WorkerWaitingForAll)"
        using a by (simp add: s')
      show "killThreads (shared s') \<Longrightarrow>
         startMating (shared s') \<and> mainAt s' = MainJoining \<and>
         mainDone s' = mainBegun s' \<and> (\<forall>w < n. workerDone s' w = mainBegun s')"
        using basics(5) by simp
    qed (use basics workers in blast)+
  next
    case False
    note a = arrive_not_last[OF False]
    show ?thesis
    proof (rule barrierInvI)
      show "\<not> startMating (shared s') \<Longrightarrow>
         numThreadsFinishedMating (shared s') = 0 \<and> \<not> killThreads (shared s') \<and>
         mainDone s' = mainBegun s' \<and> (\<forall>w < n. workerDone s' w = mainBegun s') \<and>
         (mainAt s' = BetweenGenerations \<or> mainAt s' = MainWaitingForAll)"
        using a m by (simp add: s')
      show "startMating (shared s') \<Longrightarrow> \<not> killThreads (shared s') \<Longrightarrow>
         (mainAt s' = MainMating \<or> mainAt s' = MainWaitingForAll) \<and>
         0 < mainBegun s' \<and>
         numThreadsFinishedMating (shared s')
           = card (finishedNow s') + (if mainDone s' = mainBegun s' then 1 else 0) \<and>
         numThreadsFinishedMating (shared s') \<le> n \<and>
         (0 < numThreadsFinishedMating (shared s') \<longrightarrow>
            \<not> allThreadsFinishedMating (shared s')) \<and>
         (\<forall>w < n. workerDone s' w = mainBegun s' \<longrightarrow> workerAt s' w = WorkerWaitingForAll)"
        unfolding fn using a m o cnt False n by (simp add: s')
      show "killThreads (shared s') \<Longrightarrow>
         startMating (shared s') \<and> mainAt s' = MainJoining \<and>
         mainDone s' = mainBegun s' \<and> (\<forall>w < n. workerDone s' w = mainBegun s')"
        using basics(5) by simp
    qed (use basics workers in blast)+
  qed
qed

lemma inv_WorkerFinishes:
  assumes inv: "barrierInv n s" and f: "fire s (WorkerFinishes w) = Some s'"
  shows "barrierInv n s'"
proof -
  from f have w0: "w < actuallySpawnedThreads (shared s)" and at: "workerAt s w = WorkerMating"
    and s': "s' = s\<lparr>shared := arrive (shared s),
                   workerAt := (workerAt s)
                     (w := (if allThreadsFinishedMating (arrive (shared s))
                            then WaitingForStart else WorkerWaitingForAll)),
                   workerDone := (workerDone s)(w := workerDone s w + 1)\<rparr>"
    by (auto split: if_splits)
  note n = inv_n[OF inv]
  from w0 n have w: "w < n" by simp
  note m = worker_mating_open[OF inv w at]
  note o = inv_open[OF inv m(1,2)]
  have dw: "workerDone s w \<noteq> mainBegun s" using m(3) by simp
  have wd': "workerDone s' = (workerDone s)(w := mainBegun s)"
    using m(3) by (simp add: s')
  have a1: "actuallySpawnedThreads (shared s') = n" using n by (simp add: s' arrive_fields)
  have a2: "mainBegun s' = mainBegun s" by (simp add: s')
  have f1: "finishedNow s' = {v. v < n \<and> ((workerDone s)(w := mainBegun s)) v = mainBegun s}"
    by (simp only: finishedNow_def a1 a2 wd')
  have f0: "finishedNow s = {v. v < n \<and> workerDone s v = mainBegun s}"
    by (simp only: finishedNow_def n)
  have fn: "card (finishedNow s') = Suc (card (finishedNow s))"
    unfolding f1 f0 by (rule card_done_upd[of w n "workerDone s" "mainBegun s", OF w dw])
  have le: "card (finishedNow s') \<le> n"
    unfolding f1 by (rule card_done_le)
  have basics: "actuallySpawnedThreads (shared s') = n" "mainDone s' \<le> mainBegun s'"
    "mainBegun s' \<le> Suc (mainDone s')"
    "(mainAt s' = MainMating) = (mainBegun s' = Suc (mainDone s'))"
    "\<not> killThreads (shared s')"
    using n m inv_main[OF inv] by (simp_all add: s' arrive_fields)
  have workers: "\<And>v. v < n \<Longrightarrow>
           workerDone s' v \<le> workerBegun s' v \<and> workerBegun s' v \<le> mainBegun s' \<and>
           mainBegun s' \<le> Suc (workerDone s' v) \<and>
           ((workerAt s' v = WorkerMating) = (workerBegun s' v = Suc (workerDone s' v)))"
  proof -
    fix v assume v: "v < n"
    show "workerDone s' v \<le> workerBegun s' v \<and> workerBegun s' v \<le> mainBegun s' \<and>
           mainBegun s' \<le> Suc (workerDone s' v) \<and>
           ((workerAt s' v = WorkerMating) = (workerBegun s' v = Suc (workerDone s' v)))"
    proof (cases "v = w")
      case True
      with m show ?thesis by (simp add: s')
    next
      case False
      with inv_worker[OF inv v] show ?thesis by (simp add: s')
    qed
  qed
  show ?thesis
  proof (cases "actuallySpawnedThreads (shared s) < numThreadsFinishedMating (shared s) + 1")
    case True
    note a = arrive_last[OF True]
    from o have c: "numThreadsFinishedMating (shared s)
           = card (finishedNow s) + (if mainDone s = mainBegun s then 1 else 0)"
      and cn: "numThreadsFinishedMating (shared s) \<le> n"
      and ma: "mainAt s = MainMating \<or> mainAt s = MainWaitingForAll" by simp_all
    from True n cn have cnt: "numThreadsFinishedMating (shared s) = n" by simp
    from cnt c fn le have md: "mainDone s = mainBegun s" and full: "card (finishedNow s') = n"
      by (auto split: if_splits)
    from full have all: "\<And>v. v < n \<Longrightarrow> workerDone s' v = mainBegun s'"
      unfolding finishedNow_def basics(1) by (rule card_done_full)
    from md inv_main[OF inv] ma have mw: "mainAt s = MainWaitingForAll" by auto
    show ?thesis
    proof (rule barrierInvI)
      show "\<not> startMating (shared s') \<Longrightarrow>
         numThreadsFinishedMating (shared s') = 0 \<and> \<not> killThreads (shared s') \<and>
         mainDone s' = mainBegun s' \<and> (\<forall>w < n. workerDone s' w = mainBegun s') \<and>
         (mainAt s' = BetweenGenerations \<or> mainAt s' = MainWaitingForAll)"
        using a basics(5) all md mw by (simp add: s')
      show "startMating (shared s') \<Longrightarrow> \<not> killThreads (shared s') \<Longrightarrow>
         (mainAt s' = MainMating \<or> mainAt s' = MainWaitingForAll) \<and>
         0 < mainBegun s' \<and>
         numThreadsFinishedMating (shared s')
           = card (finishedNow s') + (if mainDone s' = mainBegun s' then 1 else 0) \<and>
         numThreadsFinishedMating (shared s') \<le> n \<and>
         (0 < numThreadsFinishedMating (shared s') \<longrightarrow>
            \<not> allThreadsFinishedMating (shared s')) \<and>
         (\<forall>w < n. workerDone s' w = mainBegun s' \<longrightarrow> workerAt s' w = WorkerWaitingForAll)"
        using a by (simp add: s')
      show "killThreads (shared s') \<Longrightarrow>
         startMating (shared s') \<and> mainAt s' = MainJoining \<and>
         mainDone s' = mainBegun s' \<and> (\<forall>w < n. workerDone s' w = mainBegun s')"
        using basics(5) by simp
    qed (use basics workers in blast)+
  next
    case False
    note a = arrive_not_last[OF False]
    from o have c: "numThreadsFinishedMating (shared s)
           = card (finishedNow s) + (if mainDone s = mainBegun s then 1 else 0)"
      and ma: "mainAt s = MainMating \<or> mainAt s = MainWaitingForAll"
      and g: "0 < mainBegun s"
      and wa: "\<forall>v < n. workerDone s v = mainBegun s \<longrightarrow> workerAt s v = WorkerWaitingForAll"
      by simp_all
    have wa': "\<forall>v < n. workerDone s' v = mainBegun s' \<longrightarrow> workerAt s' v = WorkerWaitingForAll"
      using wa a(2) by (simp add: s')
    show ?thesis
    proof (rule barrierInvI)
      show "\<not> startMating (shared s') \<Longrightarrow>
         numThreadsFinishedMating (shared s') = 0 \<and> \<not> killThreads (shared s') \<and>
         mainDone s' = mainBegun s' \<and> (\<forall>w < n. workerDone s' w = mainBegun s') \<and>
         (mainAt s' = BetweenGenerations \<or> mainAt s' = MainWaitingForAll)"
        using a m by (simp add: s')
      show "startMating (shared s') \<Longrightarrow> \<not> killThreads (shared s') \<Longrightarrow>
         (mainAt s' = MainMating \<or> mainAt s' = MainWaitingForAll) \<and>
         0 < mainBegun s' \<and>
         numThreadsFinishedMating (shared s')
           = card (finishedNow s') + (if mainDone s' = mainBegun s' then 1 else 0) \<and>
         numThreadsFinishedMating (shared s') \<le> n \<and>
         (0 < numThreadsFinishedMating (shared s') \<longrightarrow>
            \<not> allThreadsFinishedMating (shared s')) \<and>
         (\<forall>w < n. workerDone s' w = mainBegun s' \<longrightarrow> workerAt s' w = WorkerWaitingForAll)"
        unfolding fn using a c ma g wa' False n by (simp add: s')
      show "killThreads (shared s') \<Longrightarrow>
         startMating (shared s') \<and> mainAt s' = MainJoining \<and>
         mainDone s' = mainBegun s' \<and> (\<forall>w < n. workerDone s' w = mainBegun s')"
        using basics(5) by simp
    qed (use basics workers in blast)+
  qed
qed

lemma finishedNow_same:
  assumes "actuallySpawnedThreads (shared s') = actuallySpawnedThreads (shared s)"
    and "workerDone s' = workerDone s" and "mainBegun s' = mainBegun s"
  shows "finishedNow s' = finishedNow s"
  by (simp only: finishedNow_def assms)

lemma finished_worker_blocks:
  assumes inv: "barrierInv n s" and w: "w < n" and d: "workerDone s w = mainBegun s"
    and st: "startMating (shared s)" and k: "\<not> killThreads (shared s)"
  shows "\<not> allThreadsFinishedMating (shared s)" "workerAt s w = WorkerWaitingForAll"
proof -
  note o = inv_open[OF inv st k]
  from o w d show "workerAt s w = WorkerWaitingForAll" by blast
  have "w \<in> finishedNow s" using w d inv_n[OF inv] by (simp add: finishedNow_def)
  moreover have "finite (finishedNow s)" unfolding finishedNow_def by (rule finite_done)
  ultimately have "0 < card (finishedNow s)" by (auto simp: card_gt_0_iff)
  with o show "\<not> allThreadsFinishedMating (shared s)" by simp
qed

lemma inv_WorkerStarts:
  assumes inv: "barrierInv n s" and f: "fire s (WorkerStarts w) = Some s'"
  shows "barrierInv n s'"
proof -
  from f have w0: "w < actuallySpawnedThreads (shared s)" and at: "workerAt s w = WaitingForStart"
    and st: "startMating (shared s)" and k: "\<not> killThreads (shared s)"
    and s': "s' = s\<lparr>workerAt := (workerAt s)(w := WorkerMating),
                   workerBegun := (workerBegun s)(w := workerBegun s w + 1)\<rparr>"
    by (auto split: if_splits)
  note n = inv_n[OF inv]
  from w0 n have w: "w < n" by simp
  note o = inv_open[OF inv st k]
  have dw: "workerDone s w \<noteq> mainBegun s"
    using finished_worker_blocks(2)[OF inv w _ st k] at by auto
  from inv_worker[OF inv w] at dw have bw: "workerBegun s w = workerDone s w"
    and g: "mainBegun s = Suc (workerDone s w)" by auto
  have fn: "finishedNow s' = finishedNow s"
    by (rule finishedNow_same) (simp_all add: s')
  show ?thesis
  proof (rule barrierInvI)
    fix v assume v: "v < n"
    show "workerDone s' v \<le> workerBegun s' v \<and> workerBegun s' v \<le> mainBegun s' \<and>
           mainBegun s' \<le> Suc (workerDone s' v) \<and>
           ((workerAt s' v = WorkerMating) = (workerBegun s' v = Suc (workerDone s' v)))"
    proof (cases "v = w")
      case True
      with bw g show ?thesis by (simp add: s')
    next
      case False
      with inv_worker[OF inv v] show ?thesis by (simp add: s')
    qed
  next
    show "startMating (shared s') \<Longrightarrow> \<not> killThreads (shared s') \<Longrightarrow>
         (mainAt s' = MainMating \<or> mainAt s' = MainWaitingForAll) \<and>
         0 < mainBegun s' \<and>
         numThreadsFinishedMating (shared s')
           = card (finishedNow s') + (if mainDone s' = mainBegun s' then 1 else 0) \<and>
         numThreadsFinishedMating (shared s') \<le> n \<and>
         (0 < numThreadsFinishedMating (shared s') \<longrightarrow>
            \<not> allThreadsFinishedMating (shared s')) \<and>
         (\<forall>w < n. workerDone s' w = mainBegun s' \<longrightarrow> workerAt s' w = WorkerWaitingForAll)"
      unfolding fn using o dw by (simp add: s')
  qed (use n inv_main[OF inv] st k in \<open>simp_all add: s'\<close>)
qed

lemma inv_WorkerWakes:
  assumes inv: "barrierInv n s" and f: "fire s (WorkerWakes w) = Some s'"
  shows "barrierInv n s'"
proof -
  from f have w0: "w < actuallySpawnedThreads (shared s)"
    and at: "workerAt s w = WorkerWaitingForAll"
    and af: "allThreadsFinishedMating (shared s)"
    and s': "s' = s\<lparr>workerAt := (workerAt s)(w := WaitingForStart)\<rparr>"
    by (auto split: if_splits)
  note n = inv_n[OF inv]
  from w0 n have w: "w < n" by simp
  have fn: "finishedNow s' = finishedNow s"
    by (rule finishedNow_same) (simp_all add: s')
  show ?thesis
  proof (rule barrierInvI)
    fix v assume v: "v < n"
    show "workerDone s' v \<le> workerBegun s' v \<and> workerBegun s' v \<le> mainBegun s' \<and>
           mainBegun s' \<le> Suc (workerDone s' v) \<and>
           ((workerAt s' v = WorkerMating) = (workerBegun s' v = Suc (workerDone s' v)))"
    proof (cases "v = w")
      case True
      with inv_worker[OF inv w] at show ?thesis by (simp add: s')
    next
      case False
      with inv_worker[OF inv v] show ?thesis by (simp add: s')
    qed
  next
    assume st: "startMating (shared s')" and k: "\<not> killThreads (shared s')"
    then have st0: "startMating (shared s)" and k0: "\<not> killThreads (shared s)"
      by (simp_all add: s')
    have dw: "workerDone s w \<noteq> mainBegun s"
      using finished_worker_blocks(1)[OF inv w _ st0 k0] af by auto
    from inv_open[OF inv st0 k0] dw
    show "(mainAt s' = MainMating \<or> mainAt s' = MainWaitingForAll) \<and>
         0 < mainBegun s' \<and>
         numThreadsFinishedMating (shared s')
           = card (finishedNow s') + (if mainDone s' = mainBegun s' then 1 else 0) \<and>
         numThreadsFinishedMating (shared s') \<le> n \<and>
         (0 < numThreadsFinishedMating (shared s') \<longrightarrow>
            \<not> allThreadsFinishedMating (shared s')) \<and>
         (\<forall>w < n. workerDone s' w = mainBegun s' \<longrightarrow> workerAt s' w = WorkerWaitingForAll)"
      unfolding fn by (simp add: s')
  next
    assume "\<not> startMating (shared s')"
    then have "\<not> startMating (shared s)" by (simp add: s')
    from inv_closed[OF inv this]
    show "numThreadsFinishedMating (shared s') = 0 \<and> \<not> killThreads (shared s') \<and>
         mainDone s' = mainBegun s' \<and> (\<forall>w < n. workerDone s' w = mainBegun s') \<and>
         (mainAt s' = BetweenGenerations \<or> mainAt s' = MainWaitingForAll)"
      by (simp add: s')
  next
    assume "killThreads (shared s')"
    then have "killThreads (shared s)" by (simp add: s')
    from inv_killed[OF inv this]
    show "startMating (shared s') \<and> mainAt s' = MainJoining \<and>
         mainDone s' = mainBegun s' \<and> (\<forall>w < n. workerDone s' w = mainBegun s')"
      by (simp add: s')
  qed (use n inv_main[OF inv] in \<open>simp_all add: s'\<close>)
qed

lemma inv_WorkerExits:
  assumes inv: "barrierInv n s" and f: "fire s (WorkerExits w) = Some s'"
  shows "barrierInv n s'"
proof -
  from f have w0: "w < actuallySpawnedThreads (shared s)"
    and at: "workerAt s w = WaitingForStart"
    and st: "startMating (shared s)" and k: "killThreads (shared s)"
    and s': "s' = s\<lparr>workerAt := (workerAt s)(w := WorkerExited)\<rparr>"
    by (auto split: if_splits)
  note n = inv_n[OF inv]
  from w0 n have w: "w < n" by simp
  show ?thesis
  proof (rule barrierInvI)
    fix v assume v: "v < n"
    show "workerDone s' v \<le> workerBegun s' v \<and> workerBegun s' v \<le> mainBegun s' \<and>
           mainBegun s' \<le> Suc (workerDone s' v) \<and>
           ((workerAt s' v = WorkerMating) = (workerBegun s' v = Suc (workerDone s' v)))"
    proof (cases "v = w")
      case True
      with inv_worker[OF inv w] at show ?thesis by (simp add: s')
    next
      case False
      with inv_worker[OF inv v] show ?thesis by (simp add: s')
    qed
  next
    from inv_killed[OF inv k]
    show "killThreads (shared s') \<Longrightarrow>
         startMating (shared s') \<and> mainAt s' = MainJoining \<and>
         mainDone s' = mainBegun s' \<and> (\<forall>w < n. workerDone s' w = mainBegun s')"
      by (simp add: s')
  qed (use n inv_main[OF inv] st k in \<open>simp_all add: s'\<close>)
qed

lemma waiting_main_closed:
  assumes inv: "barrierInv n s" and at: "mainAt s = MainWaitingForAll"
    and af: "allThreadsFinishedMating (shared s)"
  shows "\<not> startMating (shared s)"
proof
  assume st: "startMating (shared s)"
  show False
  proof (cases "killThreads (shared s)")
    case True
    from inv_killed[OF inv True] at show False by simp
  next
    case False
    from inv_main[OF inv] at have "mainDone s = mainBegun s" by auto
    with inv_open[OF inv st False] af show False by auto
  qed
qed

lemma inv_MainWakes:
  assumes inv: "barrierInv n s" and f: "fire s MainWakes = Some s'"
  shows "barrierInv n s'"
proof -
  from f have at: "mainAt s = MainWaitingForAll"
    and af: "allThreadsFinishedMating (shared s)"
    and s': "s' = s\<lparr>mainAt := BetweenGenerations\<rparr>"
    by (auto split: if_splits)
  note ns = waiting_main_closed[OF inv at af]
  note c = inv_closed[OF inv ns]
  show ?thesis
  proof (rule barrierInvI)
    fix v assume v: "v < n"
    from inv_worker[OF inv v]
    show "workerDone s' v \<le> workerBegun s' v \<and> workerBegun s' v \<le> mainBegun s' \<and>
           mainBegun s' \<le> Suc (workerDone s' v) \<and>
           ((workerAt s' v = WorkerMating) = (workerBegun s' v = Suc (workerDone s' v)))"
      by (simp add: s')
  qed (use inv_n[OF inv] ns c in \<open>simp_all add: s'\<close>)
qed

lemma inv_Terminate:
  assumes inv: "barrierInv n s" and f: "fire s Terminate = Some s'"
  shows "barrierInv n s'"
proof -
  from f have at: "mainAt s = BetweenGenerations"
    and s': "s' = s\<lparr>shared := (shared s)\<lparr>startMating := True, killThreads := True\<rparr>,
                   mainAt := MainJoining\<rparr>"
    by (auto split: if_splits)
  note c = inv_closed[OF inv between_closed[OF inv at]]
  show ?thesis
  proof (rule barrierInvI)
    fix v assume v: "v < n"
    from inv_worker[OF inv v]
    show "workerDone s' v \<le> workerBegun s' v \<and> workerBegun s' v \<le> mainBegun s' \<and>
           mainBegun s' \<le> Suc (workerDone s' v) \<and>
           ((workerAt s' v = WorkerMating) = (workerBegun s' v = Suc (workerDone s' v)))"
      by (simp add: s')
  qed (use inv_n[OF inv] c in \<open>simp_all add: s'\<close>)
qed

lemma inv_fire:
  assumes "barrierInv n s" and "fire s m = Some s'"
  shows "barrierInv n s'"
proof (cases m)
  case StartGeneration
  with assms show ?thesis by (simp only: inv_StartGeneration)
next
  case MainFinishes
  with assms show ?thesis by (simp only: inv_MainFinishes)
next
  case MainWakes
  with assms show ?thesis by (simp only: inv_MainWakes)
next
  case Terminate
  with assms show ?thesis by (simp only: inv_Terminate)
next
  case (WorkerStarts w)
  with assms show ?thesis by (simp only: inv_WorkerStarts)
next
  case (WorkerFinishes w)
  with assms show ?thesis by (simp only: inv_WorkerFinishes)
next
  case (WorkerWakes w)
  with assms show ?thesis by (simp only: inv_WorkerWakes)
next
  case (WorkerExits w)
  with assms show ?thesis by (simp only: inv_WorkerExits)
qed

lemma inv_runMoves:
  assumes "barrierInv n s" and "runMoves s ms = Some s'"
  shows "barrierInv n s'"
  using assms
proof (induction ms arbitrary: s)
  case Nil
  then show ?case by simp
next
  case (Cons m ms)
  from Cons.prems(2) obtain s1 where f: "fire s m = Some s1" and r: "runMoves s1 ms = Some s'"
    by (auto split: option.splits)
  from Cons.IH[OF inv_fire[OF Cons.prems(1) f] r] show ?case .
qed

lemma reached_inv: "runMoves (spawned n) ms = Some s \<Longrightarrow> barrierInv n s"
  by (rule inv_runMoves[OF inv_spawned])

lemma reached_safe:
  assumes inv: "barrierInv n s" and w: "w < n"
  shows "workerBegun s w \<le> Suc (mainDone s)"
    and "\<And>v. v < n \<Longrightarrow> workerBegun s w \<le> Suc (workerDone s v)"
proof -
  from inv_worker[OF inv w] have b: "workerBegun s w \<le> mainBegun s" by simp
  from inv_main[OF inv] b show "workerBegun s w \<le> Suc (mainDone s)" by simp
  fix v assume "v < n"
  from inv_worker[OF inv this] b show "workerBegun s w \<le> Suc (workerDone s v)" by simp
qed

lemma finishing_counter:
  assumes inv: "barrierInv n s"
    and m: "mainAt s = MainMating \<or> (w < n \<and> workerAt s w = WorkerMating)"
  shows "numThreadsFinishedMating (shared s) < participants (shared s)"
    and "allThreadsFinishedMating (arrive (shared s))
           = (numThreadsFinishedMating (shared s) + 1 = participants (shared s))"
proof -
  from m have o: "startMating (shared s) \<and> \<not> killThreads (shared s)"
    using main_mating_open(1,2)[OF inv] worker_mating_open(1,2)[OF inv] by blast
  then have le: "numThreadsFinishedMating (shared s) \<le> n" using inv_open[OF inv] by blast
  with inv_n[OF inv] show "numThreadsFinishedMating (shared s) < participants (shared s)"
    by (simp add: participants_def)
  from le inv_n[OF inv]
  show "allThreadsFinishedMating (arrive (shared s))
           = (numThreadsFinishedMating (shared s) + 1 = participants (shared s))"
    by (auto simp: participants_def arrive_def)
qed

subsection \<open>The barrier between two generations\<close>

text \<open>
  Claim C2, as amended.  In every state that a schedule of the threads reaches from the
  state in which \<open>n\<close> workers were spawned:
  \<^item> a worker that has begun its mating of generation \<open>g + 1\<close> finds that the invoking
    thread and every worker have finished their mating of generation \<open>g\<close>;
  \<^item> a thread that finishes its mating increments the counter under the mutex (the
    counter was below the number of participants, the workers and the invoking
    thread); the one whose increment makes the counter equal to the number of
    participants, that is greater than the number of spawned workers, resets it to
    zero, clears \<^verbatim>\<open>startMating\<close> and sets \<^verbatim>\<open>allThreadsFinishedMating\<close>; any other clears
    \<^verbatim>\<open>allThreadsFinishedMating\<close> and keeps the incremented counter;
  \<^item> a waiting thread goes on only when \<^verbatim>\<open>allThreadsFinishedMating\<close> is set;
  \<^item> a worker begins a mating only when \<^verbatim>\<open>startMating\<close> is set and \<^verbatim>\<open>killThreads\<close> is not,
    and then every participant has finished as many matings as the worker has begun.
\<close>

theorem generation_barrier:
  assumes "runMoves (spawned n) ms = Some s"
  shows "(\<forall>w < n. workerBegun s w \<le> Suc (mainDone s)
                \<and> (\<forall>v < n. workerBegun s w \<le> Suc (workerDone s v)))
       \<and> (\<forall>s'. fire s MainFinishes = Some s' \<or> (\<exists>w. fire s (WorkerFinishes w) = Some s') \<longrightarrow>
             numThreadsFinishedMating (shared s) < participants (shared s)
             \<and> shared s' = arrive (shared s)
             \<and> (numThreadsFinishedMating (shared s) + 1 = participants (shared s) \<longrightarrow>
                  allThreadsFinishedMating (shared s') \<and> \<not> startMating (shared s')
                  \<and> numThreadsFinishedMating (shared s') = 0)
             \<and> (numThreadsFinishedMating (shared s) + 1 \<noteq> participants (shared s) \<longrightarrow>
                  \<not> allThreadsFinishedMating (shared s')
                  \<and> numThreadsFinishedMating (shared s')
                      = numThreadsFinishedMating (shared s) + 1))
       \<and> (\<forall>s'. fire s MainWakes = Some s' \<or> (\<exists>w. fire s (WorkerWakes w) = Some s') \<longrightarrow>
             allThreadsFinishedMating (shared s))
       \<and> (\<forall>w s'. fire s (WorkerStarts w) = Some s' \<longrightarrow>
             startMating (shared s) \<and> \<not> killThreads (shared s)
             \<and> workerBegun s w \<le> mainDone s
             \<and> (\<forall>v < n. workerBegun s w \<le> workerDone s v))"
proof -
  note inv = reached_inv[OF assms]
  have A: "\<forall>w < n. workerBegun s w \<le> Suc (mainDone s)
                \<and> (\<forall>v < n. workerBegun s w \<le> Suc (workerDone s v))"
    using reached_safe[OF inv] by blast
  have B: "\<forall>s'. fire s MainFinishes = Some s' \<or> (\<exists>w. fire s (WorkerFinishes w) = Some s') \<longrightarrow>
             numThreadsFinishedMating (shared s) < participants (shared s)
             \<and> shared s' = arrive (shared s)
             \<and> (numThreadsFinishedMating (shared s) + 1 = participants (shared s) \<longrightarrow>
                  allThreadsFinishedMating (shared s') \<and> \<not> startMating (shared s')
                  \<and> numThreadsFinishedMating (shared s') = 0)
             \<and> (numThreadsFinishedMating (shared s) + 1 \<noteq> participants (shared s) \<longrightarrow>
                  \<not> allThreadsFinishedMating (shared s')
                  \<and> numThreadsFinishedMating (shared s')
                      = numThreadsFinishedMating (shared s) + 1)"
  proof (intro allI impI)
    fix s'
    assume f: "fire s MainFinishes = Some s' \<or> (\<exists>w. fire s (WorkerFinishes w) = Some s')"
    then obtain w where m: "mainAt s = MainMating \<or> (w < n \<and> workerAt s w = WorkerMating)"
      and sh: "shared s' = arrive (shared s)"
      using inv_n[OF inv] by (auto split: if_splits)
    note c = finishing_counter[OF inv m]
    from c(2) have "numThreadsFinishedMating (shared s) + 1 = participants (shared s) \<longrightarrow>
                  allThreadsFinishedMating (shared s') \<and> \<not> startMating (shared s')
                  \<and> numThreadsFinishedMating (shared s') = 0"
      unfolding sh by (auto simp: arrive_def participants_def)
    moreover from c(2) have "numThreadsFinishedMating (shared s) + 1 \<noteq> participants (shared s) \<longrightarrow>
                  \<not> allThreadsFinishedMating (shared s')
                  \<and> numThreadsFinishedMating (shared s')
                      = numThreadsFinishedMating (shared s) + 1"
      unfolding sh by (auto simp: arrive_def participants_def)
    ultimately show "numThreadsFinishedMating (shared s) < participants (shared s)
             \<and> shared s' = arrive (shared s)
             \<and> (numThreadsFinishedMating (shared s) + 1 = participants (shared s) \<longrightarrow>
                  allThreadsFinishedMating (shared s') \<and> \<not> startMating (shared s')
                  \<and> numThreadsFinishedMating (shared s') = 0)
             \<and> (numThreadsFinishedMating (shared s) + 1 \<noteq> participants (shared s) \<longrightarrow>
                  \<not> allThreadsFinishedMating (shared s')
                  \<and> numThreadsFinishedMating (shared s')
                      = numThreadsFinishedMating (shared s) + 1)"
      using c(1) sh by blast
  qed
  have C: "\<forall>s'. fire s MainWakes = Some s' \<or> (\<exists>w. fire s (WorkerWakes w) = Some s') \<longrightarrow>
             allThreadsFinishedMating (shared s)"
    by (auto split: if_splits)
  have D: "\<forall>w s'. fire s (WorkerStarts w) = Some s' \<longrightarrow>
             startMating (shared s) \<and> \<not> killThreads (shared s)
             \<and> workerBegun s w \<le> mainDone s
             \<and> (\<forall>v < n. workerBegun s w \<le> workerDone s v)"
  proof (intro allI impI)
    fix w s'
    assume f: "fire s (WorkerStarts w) = Some s'"
    then have st: "startMating (shared s)" "\<not> killThreads (shared s)"
      and b: "workerBegun s' w = Suc (workerBegun s w)"
      and same: "mainDone s' = mainDone s" "\<And>v. v \<noteq> w \<Longrightarrow> workerDone s' v = workerDone s v"
        "workerDone s' w = workerDone s w"
      and w: "w < n"
      using inv_n[OF inv] by (auto split: if_splits)
    note inv' = inv_fire[OF inv f]
    from reached_safe(1)[OF inv' w] b same have 1: "workerBegun s w \<le> mainDone s" by simp
    have 2: "\<forall>v < n. workerBegun s w \<le> workerDone s v"
    proof (intro allI impI)
      fix v assume v: "v < n"
      from reached_safe(2)[OF inv' w v] b same show "workerBegun s w \<le> workerDone s v"
        by (cases "v = w") simp_all
    qed
    from st 1 2 show "startMating (shared s) \<and> \<not> killThreads (shared s)
             \<and> workerBegun s w \<le> mainDone s
             \<and> (\<forall>v < n. workerBegun s w \<le> workerDone s v)" by blast
  qed
  from A B C D show ?thesis by blast
qed

theorem generation_barrier_witness:
  "(\<exists>s. runMoves (spawned 2) secondGeneration = Some s
        \<and> workerBegun s 1 = 2 \<and> mainDone s = 1 \<and> workerDone s 0 = 1
        \<and> workerBegun s 1 \<le> Suc (mainDone s) \<and> workerBegun s 1 \<le> Suc (workerDone s 0)
        \<and> (\<exists>s'. fire s MainFinishes = Some s')
        \<and> numThreadsFinishedMating (shared s) < participants (shared s)
        \<and> (\<exists>s'. fire s (WorkerStarts 0) = Some s')
        \<and> workerBegun s 0 \<le> mainDone s)
   \<and> (\<exists>s. runMoves (spawned 2) firstGenerationDone = Some s
        \<and> (\<exists>s'. fire s MainWakes = Some s')
        \<and> allThreadsFinishedMating (shared s))"
proof -
  have "case runMoves (spawned 2) secondGeneration of
          None \<Rightarrow> False
        | Some s \<Rightarrow> workerBegun s 1 = 2 \<and> mainDone s = 1 \<and> workerDone s 0 = 1
            \<and> (case fire s MainFinishes of None \<Rightarrow> False | Some _ \<Rightarrow> True)
            \<and> (case fire s (WorkerStarts 0) of None \<Rightarrow> False | Some _ \<Rightarrow> True)"
    by code_simp
  then obtain s a b where s: "runMoves (spawned 2) secondGeneration = Some s"
    and v: "workerBegun s 1 = 2" "mainDone s = 1" "workerDone s 0 = 1"
    and a: "fire s MainFinishes = Some a" and b: "fire s (WorkerStarts 0) = Some b"
    by (auto simp del: fire.simps split: option.splits)
  have "case runMoves (spawned 2) firstGenerationDone of
          None \<Rightarrow> False
        | Some s \<Rightarrow> (case fire s MainWakes of None \<Rightarrow> False | Some _ \<Rightarrow> True)"
    by code_simp
  then obtain t c where t: "runMoves (spawned 2) firstGenerationDone = Some t"
    and c: "fire t MainWakes = Some c"
    by (auto simp del: fire.simps split: option.splits)
  note g = generation_barrier[OF s]
  from g have A: "\<forall>w < 2. workerBegun s w \<le> Suc (mainDone s)
                \<and> (\<forall>v < 2. workerBegun s w \<le> Suc (workerDone s v))"
    by (rule conjunct1)
  from g a have Bc: "numThreadsFinishedMating (shared s) < participants (shared s)" by blast
  from g b have Dc: "workerBegun s 0 \<le> mainDone s" by blast
  from A have Ac: "workerBegun s 1 \<le> Suc (mainDone s)" "workerBegun s 1 \<le> Suc (workerDone s 0)"
    by auto
  from Ac Bc Dc
  have 1: "workerBegun s 1 \<le> Suc (mainDone s) \<and> workerBegun s 1 \<le> Suc (workerDone s 0)
        \<and> numThreadsFinishedMating (shared s) < participants (shared s)
        \<and> workerBegun s 0 \<le> mainDone s"
    by blast
  from generation_barrier[OF t] c have 2: "allThreadsFinishedMating (shared t)"
    by blast
  from s v a b 1 t c 2 show ?thesis by blast
qed

text \<open>
  The claim as stated fails on the bound of the counter: with one worker there are two
  participants, and the invoking thread, arriving second, raises the counter to 2,
  which is not above the number of participants; it resets the counter all the same.
\<close>

theorem counter_above_participants_counterexample:
  "\<exists>s s'. runMoves (spawned 1) workerFinishedFirst = Some s
        \<and> fire s MainFinishes = Some s'
        \<and> participants (shared s) = 2
        \<and> numThreadsFinishedMating (shared s) + 1 = 2
        \<and> \<not> participants (shared s) < numThreadsFinishedMating (shared s) + 1
        \<and> allThreadsFinishedMating (shared s') \<and> \<not> startMating (shared s')
        \<and> numThreadsFinishedMating (shared s') = 0"
proof -
  have "case runMoves (spawned 1) workerFinishedFirst of
          None \<Rightarrow> False
        | Some s \<Rightarrow>
            (case fire s MainFinishes of
               None \<Rightarrow> False
             | Some s' \<Rightarrow>
                 participants (shared s) = 2
                 \<and> numThreadsFinishedMating (shared s) + 1 = 2
                 \<and> \<not> participants (shared s) < numThreadsFinishedMating (shared s) + 1
                 \<and> allThreadsFinishedMating (shared s') \<and> \<not> startMating (shared s')
                 \<and> numThreadsFinishedMating (shared s') = 0)"
    by code_simp
  then show ?thesis by (auto simp del: fire.simps split: option.splits)
qed

section \<open>The end of run\<close>

subsection \<open>Joining after a failed creation\<close>

text \<open>
  Claim C9.  Two threads, four children, one generation, and the creation of the only
  worker fails.  The spawning loop adds the worker's two children to the invoking
  thread's share, which is then all four slots from slot 0, no thread is counted as
  spawned and the warning is given; \<^verbatim>\<open>run\<close> goes on and mates the generation alone.  Then
  the loop of the joins calls \<^verbatim>\<open>pthread_join\<close> on \<^verbatim>\<open>threads[0]\<close>, which no call has written
  (the comment before the call expects an error code and no blocking).  How \<^verbatim>\<open>run\<close> ends
  is decided by that call: it returns when the call returns, and never returns when
  the call does not.
\<close>

theorem failed_creation_joins_unwritten_handle:
  "unat (numChildrenMainThread (createThreads exampleControl (\<lambda>i. False) constructed)) = 4
   \<and> unat (mainOffset (createThreads exampleControl (\<lambda>i. False) constructed)) = 0
   \<and> actuallySpawnedThreads (createThreads exampleControl (\<lambda>i. False) constructed) = 0
   \<and> spawnWarning exampleControl (createThreads exampleControl (\<lambda>i. False) constructed)
   \<and> run scripted (scriptedPopulation\<lparr>pthread_create := (\<lambda>i. False),
                                       pthread_join := (\<lambda>i. False)\<rparr>)
         exampleControl neverInterrupted
       = Some (Blocks, [CreateFailed 0, Warning, BroadcastStart, MateOwnShare,
                        WaitForAllThreads, UpdateGeneration, BroadcastKill, Join 0])
   \<and> run scripted (scriptedPopulation\<lparr>pthread_create := (\<lambda>i. False)\<rparr>)
         exampleControl neverInterrupted
       = Some (Returns, [CreateFailed 0, Warning, BroadcastStart, MateOwnShare,
                         WaitForAllThreads, UpdateGeneration, BroadcastKill, Join 0])"
proof -
  have a: "unat (numChildrenMainThread (createThreads exampleControl (\<lambda>i. False) constructed)) = 4"
    by code_simp
  have b: "unat (mainOffset (createThreads exampleControl (\<lambda>i. False) constructed)) = 0"
    by code_simp
  have c: "actuallySpawnedThreads (createThreads exampleControl (\<lambda>i. False) constructed) = 0"
    by code_simp
  have d: "spawnWarning exampleControl (createThreads exampleControl (\<lambda>i. False) constructed)"
    by code_simp
  have e: "run scripted (scriptedPopulation\<lparr>pthread_create := (\<lambda>i. False),
                                       pthread_join := (\<lambda>i. False)\<rparr>)
         exampleControl neverInterrupted
       = Some (Blocks, [CreateFailed 0, Warning, BroadcastStart, MateOwnShare,
                        WaitForAllThreads, UpdateGeneration, BroadcastKill, Join 0])"
    by code_simp
  have f: "run scripted (scriptedPopulation\<lparr>pthread_create := (\<lambda>i. False)\<rparr>)
         exampleControl neverInterrupted
       = Some (Returns, [CreateFailed 0, Warning, BroadcastStart, MateOwnShare,
                         WaitForAllThreads, UpdateGeneration, BroadcastKill, Join 0])"
    by code_simp
  from a b c d e f show ?thesis by blast
qed

subsection \<open>Interruption\<close>

text \<open>
  Claim C8.  An interrupt caught in a generation is followed by the call of
  \<^verbatim>\<open>waitForAllThreadsToFinishMating\<close>, and only when that call returns by the kill
  broadcast, the joins and the throw.  The call need not return.  In the schedule
  \<open>staleWaiter\<close>, of one worker and two generations, the worker has not yet left the
  barrier of the first generation when the invoking thread, whose second mating has
  ended (by the interrupt), enters the barrier again and clears
  \<^verbatim>\<open>allThreadsFinishedMating\<close>: in the state reached both threads wait in the barrier, no
  thread can move, and \<^verbatim>\<open>killThreads\<close> is not set.  \<^verbatim>\<open>run\<close>, interrupted in its second
  generation, makes no kill broadcast and no join and throws nothing when that call
  does not return; when it returns, the kill broadcast and the join come before the
  throw.  An interrupt while the first chromosome is made is thrown at once, before
  any thread is created.
\<close>

theorem interrupted_run_blocks_in_barrier:
  "(\<exists>s. runMoves (spawned 1) staleWaiter = Some s
        \<and> mainAt s = MainWaitingForAll \<and> workerAt s 0 = WorkerWaitingForAll
        \<and> \<not> allThreadsFinishedMating (shared s) \<and> \<not> killThreads (shared s)
        \<and> actuallySpawnedThreads (shared s) = 1
        \<and> mainBegun s = 2 \<and> mainDone s = 2 \<and> workerBegun s 0 = 1 \<and> workerDone s 0 = 1
        \<and> (\<forall>m. fire s m = None))
   \<and> run scripted (scriptedPopulation\<lparr>barrierReturns := (\<lambda>i. i \<noteq> 1)\<rparr>) twoGenerations
         interruptedInSecondGeneration
       = Some (Blocks, [CreateThread 0, BroadcastStart, MateOwnShare, WaitForAllThreads,
                        UpdateGeneration, BroadcastStart, MateOwnShare, CatchInterrupt,
                        WaitForAllThreads])
   \<and> run scripted scriptedPopulation twoGenerations interruptedInSecondGeneration
       = Some (Throws Interrupted,
               [CreateThread 0, BroadcastStart, MateOwnShare, WaitForAllThreads,
                UpdateGeneration, BroadcastStart, MateOwnShare, CatchInterrupt,
                WaitForAllThreads, UpdateGeneration, BroadcastKill, Join 0])
   \<and> run scripted scriptedPopulation exampleControl interruptedWhileSeeding
       = Some (Throws Interrupted, [])"
proof -
  obtain s where s: "runMoves (spawned 1) staleWaiter = Some s"
    by (simp add: staleWaiter_def spawned_def constructed_def arrive_def)
  have p: "mainAt s = MainWaitingForAll \<and> workerAt s 0 = WorkerWaitingForAll
        \<and> \<not> allThreadsFinishedMating (shared s) \<and> \<not> killThreads (shared s)
        \<and> actuallySpawnedThreads (shared s) = 1
        \<and> mainBegun s = 2 \<and> mainDone s = 2 \<and> workerBegun s 0 = 1 \<and> workerDone s 0 = 1"
    using s by (auto simp add: staleWaiter_def spawned_def constructed_def arrive_def)
  have "fire s m = None" for m
    using p by (cases m) auto
  with s p have A: "\<exists>s. runMoves (spawned 1) staleWaiter = Some s
        \<and> mainAt s = MainWaitingForAll \<and> workerAt s 0 = WorkerWaitingForAll
        \<and> \<not> allThreadsFinishedMating (shared s) \<and> \<not> killThreads (shared s)
        \<and> actuallySpawnedThreads (shared s) = 1
        \<and> mainBegun s = 2 \<and> mainDone s = 2 \<and> workerBegun s 0 = 1 \<and> workerDone s 0 = 1
        \<and> (\<forall>m. fire s m = None)"
    by blast
  have B: "run scripted (scriptedPopulation\<lparr>barrierReturns := (\<lambda>i. i \<noteq> 1)\<rparr>) twoGenerations
         interruptedInSecondGeneration
       = Some (Blocks, [CreateThread 0, BroadcastStart, MateOwnShare, WaitForAllThreads,
                        UpdateGeneration, BroadcastStart, MateOwnShare, CatchInterrupt,
                        WaitForAllThreads])"
    by code_simp
  have C: "run scripted scriptedPopulation twoGenerations interruptedInSecondGeneration
       = Some (Throws Interrupted,
               [CreateThread 0, BroadcastStart, MateOwnShare, WaitForAllThreads,
                UpdateGeneration, BroadcastStart, MateOwnShare, CatchInterrupt,
                WaitForAllThreads, UpdateGeneration, BroadcastKill, Join 0])"
    by code_simp
  have D: "run scripted scriptedPopulation exampleControl interruptedWhileSeeding
       = Some (Throws Interrupted, [])"
    by code_simp
  from A B C D show ?thesis by blast
qed

end
